theory Spec2Isabelle
  imports Complex_Main "HOL-Library.Word" "HOL-Library.Monad_Syntax"
begin

section \<open>The simulation shader\<close>

text \<open>
  The compute shader of \<^verbatim>\<open>gameoflife.js\<close> works on WGSL \<^verbatim>\<open>u32\<close> values: addition,
  subtraction and multiplication wrap around modulo \<open>2 ^ 32\<close>, which is what the
  operations of \<^typ>\<open>32 word\<close> do.
\<close>

type_synonym u32 = "32 word"

text \<open>\<^verbatim>\<open>vec2u\<close> and \<^verbatim>\<open>vec3u\<close>: the components \<open>x\<close>, \<open>y\<close> (and \<open>z\<close>).\<close>

type_synonym vec2u = "u32 \<times> u32"
type_synonym vec3u = "u32 \<times> u32 \<times> u32"

definition xy :: "vec3u \<Rightarrow> vec2u" where
  "xy cell = (fst cell, fst (snd cell))"

text \<open>
  The uniform \<^verbatim>\<open>grid: vec2f\<close> is only ever used as \<^verbatim>\<open>u32(grid.x)\<close> and
  \<^verbatim>\<open>u32(grid.y)\<close>. The record holds these two converted values: the width and the
  height of the grid, in cells.
\<close>

record grid =
  gx :: u32
  gy :: u32

text \<open>
  The WGSL operator \<^verbatim>\<open>%\<close> on \<^verbatim>\<open>u32\<close>: the remainder of the division, and \<open>0\<close> when
  the divisor is \<open>0\<close> (HOL's \<open>mod\<close> would return the dividend there).
\<close>

definition rem_u32 :: "u32 \<Rightarrow> u32 \<Rightarrow> u32" where
  "rem_u32 a b = (if b = 0 then 0 else a mod b)"

text \<open>
  A storage buffer \<^verbatim>\<open>array<u32>\<close> is a list of words. An access outside the array
  is an invalid memory reference, whose effect WGSL leaves to the implementation:
  the model makes it the value \<open>None\<close>.
\<close>

definition load :: "u32 list \<Rightarrow> u32 \<Rightarrow> u32 option" where
  "load buf i = (if unat i < length buf then Some (buf ! unat i) else None)"

definition store :: "u32 list \<Rightarrow> u32 \<Rightarrow> u32 \<Rightarrow> u32 list option" where
  "store buf i v = (if unat i < length buf then Some (buf[unat i := v]) else None)"

text \<open>
  \<^verbatim>\<open>fn cellIndex(cell: vec2u) -> u32 {
    return (cell.y % u32(grid.y)) * u32(grid.x) + (cell.x % u32(grid.x)); }\<close>
\<close>

definition cellIndex :: "grid \<Rightarrow> vec2u \<Rightarrow> u32" where
  "cellIndex g cell =
     rem_u32 (snd cell) (gy g) * gx g + rem_u32 (fst cell) (gx g)"

text \<open>
  \<^verbatim>\<open>fn cellActive(x: u32, y: u32) -> u32 { return cellStateIn[cellIndex(vec2(x, y))]; }\<close>
\<close>

definition cellActive :: "grid \<Rightarrow> u32 list \<Rightarrow> u32 \<Rightarrow> u32 \<Rightarrow> u32 option" where
  "cellActive g cellStateIn x y = load cellStateIn (cellIndex g (x, y))"

text \<open>
  The \<^verbatim>\<open>let activeNeighbors = ...\<close> of \<^verbatim>\<open>computeMain\<close>: the eight reads in the order
  of the source, added as \<^verbatim>\<open>u32\<close> values.
\<close>

definition activeNeighbors :: "grid \<Rightarrow> u32 list \<Rightarrow> vec3u \<Rightarrow> u32 option" where
  "activeNeighbors g cellStateIn cell =
     (case cell of (x, y, z) \<Rightarrow>
        do {
          n1 \<leftarrow> cellActive g cellStateIn (x + 1) (y + 1);
          n2 \<leftarrow> cellActive g cellStateIn (x + 1) y;
          n3 \<leftarrow> cellActive g cellStateIn (x + 1) (y - 1);
          n4 \<leftarrow> cellActive g cellStateIn x (y - 1);
          n5 \<leftarrow> cellActive g cellStateIn (x - 1) (y - 1);
          n6 \<leftarrow> cellActive g cellStateIn (x - 1) y;
          n7 \<leftarrow> cellActive g cellStateIn (x - 1) (y + 1);
          n8 \<leftarrow> cellActive g cellStateIn x (y + 1);
          Some (n1 + n2 + n3 + n4 + n5 + n6 + n7 + n8)
        })"

text \<open>
  \<^verbatim>\<open>fn computeMain(@builtin(global_invocation_id) cell: vec3u)\<close>: one invocation.
  It reads \<^verbatim>\<open>cellStateIn\<close> (binding 1) and returns the new contents of
  \<^verbatim>\<open>cellStateOut\<close> (binding 2). A WGSL \<^verbatim>\<open>switch\<close> does not fall through.
\<close>

definition computeMain :: "grid \<Rightarrow> u32 list \<Rightarrow> vec3u \<Rightarrow> u32 list \<Rightarrow> u32 list option" where
  "computeMain g cellStateIn cell cellStateOut =
     do {
       n \<leftarrow> activeNeighbors g cellStateIn cell;
       let i = cellIndex g (xy cell);
       if n = 2 then do { v \<leftarrow> load cellStateIn i; store cellStateOut i v }
       else if n = 3 then store cellStateOut i 1
       else store cellStateOut i 0
     }"

section \<open>The host program\<close>

definition WORKGROUP_SIZE :: nat where
  "WORKGROUP_SIZE = 8"

text \<open>
  \<^verbatim>\<open>Math.ceil(GRID_SIZE / WORKGROUP_SIZE)\<close>, on natural numbers.
\<close>

definition workgroupCount :: "nat \<Rightarrow> nat" where
  "workgroupCount GRID_SIZE =
     (if GRID_SIZE mod WORKGROUP_SIZE = 0 then GRID_SIZE div WORKGROUP_SIZE
      else GRID_SIZE div WORKGROUP_SIZE + 1)"

text \<open>
  \<^verbatim>\<open>dispatchWorkgroups(cx, cy)\<close> with \<^verbatim>\<open>@workgroup_size(8, 8)\<close> starts one invocation
  for every global invocation id \<open>(x, y, 0)\<close> with \<open>x < cx * 8\<close> and \<open>y < cy * 8\<close>.
  The list gives them row by row; the device may run them in any order.
\<close>

definition dispatchWorkgroups :: "nat \<Rightarrow> nat \<Rightarrow> vec3u list" where
  "dispatchWorkgroups cx cy =
     concat (map (\<lambda>y. map (\<lambda>x. (of_nat x, of_nat y, 0)) [0..<cx * WORKGROUP_SIZE])
                 [0..<cy * WORKGROUP_SIZE])"

text \<open>
  A compute pass, the invocations running in the order \<open>ids\<close>: each reads the input
  buffer, which no invocation writes, and writes one cell of the output buffer. When
  several invocations write the same cell, the last one in \<open>ids\<close> leaves its value.
\<close>

fun runInvocations :: "grid \<Rightarrow> u32 list \<Rightarrow> vec3u list \<Rightarrow> u32 list \<Rightarrow> u32 list option" where
  "runInvocations g cellStateIn [] cellStateOut = Some cellStateOut"
| "runInvocations g cellStateIn (cell # ids) cellStateOut =
     (case computeMain g cellStateIn cell cellStateOut of
        None \<Rightarrow> None
      | Some out' \<Rightarrow> runInvocations g cellStateIn ids out')"

text \<open>
  The two storage buffers \<^verbatim>\<open>cellStateStorage[0]\<close> ("Cell State A") and
  \<^verbatim>\<open>cellStateStorage[1]\<close> ("Cell State B").
\<close>

datatype buffer = A | B

text \<open>
  A bind group names the buffer bound as \<^verbatim>\<open>cellStateIn\<close> (binding 1) and the one bound
  as \<^verbatim>\<open>cellStateOut\<close> (binding 2). Binding 0 is the same uniform buffer in both groups.
\<close>

record bindGroup =
  binding1 :: buffer
  binding2 :: buffer

definition bindGroups :: "bindGroup list" where
  "bindGroups = [\<lparr>binding1 = A, binding2 = B\<rparr>, \<lparr>binding1 = B, binding2 = A\<rparr>]"

text \<open>
  \<^verbatim>\<open>new Float32Array([GRID_SIZE, GRID_SIZE])\<close>, as the shader reads it through
  \<^verbatim>\<open>u32(grid.x)\<close> and \<^verbatim>\<open>u32(grid.y)\<close>. A 32-bit float holds every integer up to
  \<open>2 ^ 24\<close> exactly, so for such a \<^verbatim>\<open>GRID_SIZE\<close> both conversions give \<^verbatim>\<open>GRID_SIZE\<close>
  back; the source has \<^verbatim>\<open>GRID_SIZE = 32\<close>, and the model takes it as a parameter.
\<close>

definition uniformArray :: "nat \<Rightarrow> grid" where
  "uniformArray GRID_SIZE = \<lparr>gx = of_nat GRID_SIZE, gy = of_nat GRID_SIZE\<rparr>"

text \<open>
  The fill of \<^verbatim>\<open>cellStateArray\<close>: \<open>random i\<close> is the value that the call of
  \<^verbatim>\<open>Math.random()\<close> for index \<open>i\<close> returns.
\<close>

definition cellStateArray :: "nat \<Rightarrow> (nat \<Rightarrow> real) \<Rightarrow> u32 list" where
  "cellStateArray GRID_SIZE random =
     map (\<lambda>i. if random i > 0.6 then 1 else 0) [0..<GRID_SIZE * GRID_SIZE]"

text \<open>
  The mutable state of \<^verbatim>\<open>run\<close>: the counter \<^verbatim>\<open>step\<close> and the contents of the two
  storage buffers. \<^verbatim>\<open>step\<close> is a JavaScript number that only ever holds a count of
  ticks, and \<^verbatim>\<open>step++\<close> is exact as long as the count is below \<open>2 ^ 53\<close> (at five
  ticks a second, for millions of years); it is a natural number here.
\<close>

record sim =
  step :: nat
  cellStateStorage :: "buffer \<Rightarrow> u32 list"

text \<open>
  The state when \<^verbatim>\<open>setInterval\<close> is reached: \<^verbatim>\<open>createBuffer\<close> gives zeroed buffers of
  \<open>GRID_SIZE * GRID_SIZE\<close> cells, and \<^verbatim>\<open>writeBuffer\<close> copies \<^verbatim>\<open>cellStateArray\<close> into
  buffer \<open>A\<close>.
\<close>

definition run :: "nat \<Rightarrow> (nat \<Rightarrow> real) \<Rightarrow> sim" where
  "run GRID_SIZE random =
     \<lparr>step = 0,
      cellStateStorage =
        (\<lambda>b. case b of A \<Rightarrow> cellStateArray GRID_SIZE random
                     | B \<Rightarrow> replicate (GRID_SIZE * GRID_SIZE) 0)\<rparr>"

text \<open>
  What one call of \<^verbatim>\<open>updateGrid\<close> binds: the bind group of the compute pass and the
  bind group of the render pass, and the cells the render pass draws.
\<close>

record passes =
  computeGroup :: bindGroup
  renderGroup :: bindGroup
  drawn :: "u32 list"

text \<open>
  \<^verbatim>\<open>updateGrid\<close>. The device runs the dispatched invocations in the order
  \<open>schedule\<close> puts them in. The render pass draws \<^verbatim>\<open>cellState\<close>, binding 1 of the
  bind group chosen after \<^verbatim>\<open>step++\<close>.
\<close>

definition updateGrid ::
  "nat \<Rightarrow> (vec3u list \<Rightarrow> vec3u list) \<Rightarrow> sim \<Rightarrow> (sim \<times> passes) option" where
  "updateGrid GRID_SIZE schedule s =
     (let cg = bindGroups ! (step s mod 2);
          wc = workgroupCount GRID_SIZE
      in case runInvocations (uniformArray GRID_SIZE)
                (cellStateStorage s (binding1 cg))
                (schedule (dispatchWorkgroups wc wc))
                (cellStateStorage s (binding2 cg)) of
           None \<Rightarrow> None
         | Some out' \<Rightarrow>
             (let s' = s\<lparr>cellStateStorage := (cellStateStorage s)(binding2 cg := out'),
                        step := step s + 1\<rparr>;
                  rg = bindGroups ! (step s' mod 2)
              in Some (s', \<lparr>computeGroup = cg, renderGroup = rg,
                            drawn = cellStateStorage s' (binding1 rg)\<rparr>)))"

text \<open>
  \<^verbatim>\<open>setInterval(updateGrid, UPDATE_INTERVAL)\<close>: one call of \<^verbatim>\<open>updateGrid\<close> per tick,
  one schedule for each.
\<close>

fun ticks :: "nat \<Rightarrow> (vec3u list \<Rightarrow> vec3u list) list \<Rightarrow> sim \<Rightarrow> sim option" where
  "ticks GRID_SIZE [] s = Some s"
| "ticks GRID_SIZE (schedule # rest) s =
     (case updateGrid GRID_SIZE schedule s of
        None \<Rightarrow> None
      | Some (s', p) \<Rightarrow> ticks GRID_SIZE rest s')"

section \<open>Auxiliary definitions\<close>

text \<open>
  The sum and the value one invocation writes, with plain list indexing. They agree
  with \<^const>\<open>activeNeighbors\<close> and \<^const>\<open>computeMain\<close> whenever every access is inside
  the buffers (lemmas \<open>activeNeighbors_eq\<close> and \<open>computeMain_eq\<close>).
\<close>

definition cellAt :: "grid \<Rightarrow> u32 list \<Rightarrow> u32 \<Rightarrow> u32 \<Rightarrow> u32" where
  "cellAt g inp x y = inp ! unat (cellIndex g (x, y))"

definition neighborSum :: "grid \<Rightarrow> u32 list \<Rightarrow> vec3u \<Rightarrow> u32" where
  "neighborSum g inp cell =
     (case cell of (x, y, z) \<Rightarrow>
        cellAt g inp (x + 1) (y + 1) + cellAt g inp (x + 1) y + cellAt g inp (x + 1) (y - 1) +
        cellAt g inp x (y - 1) + cellAt g inp (x - 1) (y - 1) + cellAt g inp (x - 1) y +
        cellAt g inp (x - 1) (y + 1) + cellAt g inp x (y + 1))"

definition rule :: "u32 \<Rightarrow> u32 \<Rightarrow> u32" where
  "rule n v = (if n = 2 then v else if n = 3 then 1 else 0)"

definition newValue :: "grid \<Rightarrow> u32 list \<Rightarrow> vec3u \<Rightarrow> u32" where
  "newValue g inp cell = rule (neighborSum g inp cell) (inp ! unat (cellIndex g (xy cell)))"

text \<open>
  The transition rule as the specification words it, on a torus of \<open>n\<close> by \<open>n\<close> cells
  stored row by row, in integer arithmetic: \<open>torus\<close> is the cell in column \<open>x\<close> and row
  \<open>y\<close>, both taken modulo \<open>n\<close>; \<open>lifeCell\<close> is the next value of the cell with index
  \<open>i\<close>, from the sum of its eight neighbours on the torus (unchanged if the sum is 2,
  1 if it is 3, and 0 otherwise); \<open>lifeStep\<close> is the next grid.
\<close>

definition torus :: "nat \<Rightarrow> u32 list \<Rightarrow> int \<Rightarrow> int \<Rightarrow> u32" where
  "torus n inp x y = inp ! (nat (y mod int n) * n + nat (x mod int n))"

definition lifeCell :: "nat \<Rightarrow> u32 list \<Rightarrow> nat \<Rightarrow> u32" where
  "lifeCell n inp i =
     (let x = int (i mod n); y = int (i div n)
      in rule (torus n inp (x + 1) (y + 1) + torus n inp (x + 1) y + torus n inp (x + 1) (y - 1) +
               torus n inp x (y - 1) + torus n inp (x - 1) (y - 1) + torus n inp (x - 1) y +
               torus n inp (x - 1) (y + 1) + torus n inp x (y + 1))
              (inp ! i))"

definition lifeStep :: "nat \<Rightarrow> u32 list \<Rightarrow> u32 list" where
  "lifeStep n inp = map (lifeCell n inp) [0..<n * n]"

text \<open>
  The count of live cells among the eight neighbours of the cell with index \<open>i\<close> on the
  torus, the sum that \<^const>\<open>lifeCell\<close> applies the rule to.
\<close>

definition mooreCount :: "nat \<Rightarrow> u32 list \<Rightarrow> nat \<Rightarrow> u32" where
  "mooreCount n inp i =
     (let x = int (i mod n); y = int (i div n)
      in torus n inp (x + 1) (y + 1) + torus n inp (x + 1) y + torus n inp (x + 1) (y - 1) +
         torus n inp x (y - 1) + torus n inp (x - 1) (y - 1) + torus n inp (x - 1) y +
         torus n inp (x - 1) (y + 1) + torus n inp x (y + 1))"

text \<open>
  A blinker on the grid of 4 by 4 cells: three live cells in row 1, and the same
  blinker turned by 90 degrees, three live cells in column 1.
\<close>

definition blinker :: "u32 list" where
  "blinker = [0, 0, 0, 0,  1, 1, 1, 0,  0, 0, 0, 0,  0, 0, 0, 0]"

definition blinker_turned :: "u32 list" where
  "blinker_turned = [0, 1, 0, 0,  0, 1, 0, 0,  0, 1, 0, 0,  0, 0, 0, 0]"

text \<open>
  Values of \<^verbatim>\<open>Math.random()\<close> that make the initial fill of a grid of 4 by 4 cells the
  blinker.
\<close>

definition blinkerSamples :: "nat \<Rightarrow> real" where
  "blinkerSamples i = (if 4 \<le> i \<and> i \<le> 6 then 0.9 else 0.1)"

text \<open>
  Values of \<^verbatim>\<open>Math.random()\<close> that make the initial fill of a grid of 3 by 3 cells the
  grid \<open>bottomRow\<close>, whose row 2 is alive.
\<close>

definition bottomRow :: "u32 list" where
  "bottomRow = [0, 0, 0,  0, 0, 0,  1, 1, 1]"

definition bottomRowSamples :: "nat \<Rightarrow> real" where
  "bottomRowSamples i = (if 6 \<le> i then 0.9 else 0.1)"

text \<open>The contents of buffer \<open>b\<close> in the result of \<^const>\<open>ticks\<close>.\<close>

definition contents :: "buffer \<Rightarrow> sim option \<Rightarrow> u32 list option" where
  "contents b r = map_option (\<lambda>s. cellStateStorage s b) r"

text \<open>
  The blinkers of the grid of 4 by 4 cells: three live cells in row \<open>r\<close>, in the
  columns \<open>c\<close>, \<open>c + 1\<close> and \<open>c + 2\<close> modulo 4 (\<open>horizontal\<close>), or three live cells in
  column \<open>c\<close>, in the rows \<open>r\<close>, \<open>r + 1\<close> and \<open>r + 2\<close> modulo 4.
\<close>

definition blinkerAt :: "bool \<Rightarrow> nat \<Rightarrow> nat \<Rightarrow> u32 list" where
  "blinkerAt horizontal r c =
     map (\<lambda>i. if (if horizontal then i div 4 = r \<and> (i mod 4 + 4 - c) mod 4 < 3
                   else i mod 4 = c \<and> (i div 4 + 4 - r) mod 4 < 3)
              then 1 else 0) [0..<16]"

text \<open>
  The invocation whose id is the column and the row of the cell with index \<open>i\<close>, and
  the grid of the values these invocations write.
\<close>

definition owner :: "nat \<Rightarrow> nat \<Rightarrow> vec3u" where
  "owner n i = (of_nat (i mod n), of_nat (i div n), 0)"

definition ownerStep :: "nat \<Rightarrow> u32 list \<Rightarrow> u32 list" where
  "ownerStep n inp = map (\<lambda>i. newValue (uniformArray n) inp (owner n i)) [0..<n * n]"

text \<open>
  A grid of 24 by 24 cells in which only the cells in column 1 of row 0 and in column 0
  of row 1 are alive.
\<close>

definition sparse24 :: "u32 list" where
  "sparse24 = (replicate 576 0)[1 := 1, 24 := 1]"

section \<open>Index arithmetic\<close>

lemma rem_u32_lt: "b \<noteq> 0 \<Longrightarrow> unat (rem_u32 a b) < unat b"
  by (simp add: rem_u32_def unat_mod unat_gt_0)

lemma unat_rem_u32: "b \<noteq> 0 \<Longrightarrow> unat (rem_u32 a b) = unat a mod unat b"
  by (simp add: rem_u32_def unat_mod)

lemma index_bound_nat:
  fixes r c w h :: nat
  assumes "r < h" "c < w"
  shows "r * w + c < w * h"
proof -
  have "r * w + c < r * w + w" using assms by simp
  also have "\<dots> = (r + 1) * w" by simp
  also have "\<dots> \<le> h * w" using assms by (intro mult_le_mono1) simp
  finally show ?thesis by (simp add: mult.commute)
qed

lemma unat_mult_add_le: "unat (a * b + c) \<le> unat a * unat b + unat c" for a b c :: u32
proof -
  have "unat (a * b + c) = (unat (a * b) + unat c) mod 2 ^ 32"
    by (simp add: unat_word_ariths)
  also have "\<dots> \<le> unat (a * b) + unat c" by (rule mod_less_eq_dividend)
  also have "unat (a * b) \<le> unat a * unat b"
    by (simp add: unat_word_ariths)
  finally show ?thesis by simp
qed

lemma cellIndex_lt:
  assumes "gx g \<noteq> 0" "gy g \<noteq> 0"
  shows "unat (cellIndex g cell) < unat (gx g) * unat (gy g)"
proof -
  let ?r = "unat (rem_u32 (snd cell) (gy g))" and ?c = "unat (rem_u32 (fst cell) (gx g))"
  have "unat (cellIndex g cell) \<le> ?r * unat (gx g) + ?c"
    unfolding cellIndex_def by (rule unat_mult_add_le)
  also have "\<dots> < unat (gx g) * unat (gy g)"
    using assms by (intro index_bound_nat rem_u32_lt)
  finally show ?thesis .
qed

lemma unat_cellIndex:
  assumes "gx g \<noteq> 0" "gy g \<noteq> 0" "unat (gx g) * unat (gy g) \<le> 2 ^ 32"
  shows "unat (cellIndex g cell) =
           (unat (snd cell) mod unat (gy g)) * unat (gx g) + unat (fst cell) mod unat (gx g)"
proof -
  let ?r = "rem_u32 (snd cell) (gy g)" and ?c = "rem_u32 (fst cell) (gx g)"
  have lt: "unat ?r * unat (gx g) + unat ?c < unat (gx g) * unat (gy g)"
    using assms by (intro index_bound_nat rem_u32_lt)
  then have lt32: "unat ?r * unat (gx g) + unat ?c < 2 ^ 32" using assms(3) by linarith
  then have m: "unat (?r * gx g) = unat ?r * unat (gx g)"
    by (simp add: unat_mult_lem [THEN iffD1])
  have "unat (?r * gx g + ?c) = unat (?r * gx g) + unat ?c"
    using lt32 m by (simp add: unat_add_lem [THEN iffD1])
  then show ?thesis
    using m assms by (simp add: cellIndex_def unat_rem_u32)
qed

lemma uint_add_word_of_int:
  "uint (x + word_of_int d :: u32) = (uint x + d) mod 2 ^ 32"
  by (simp add: uint_word_ariths uint_word_of_int mod_simps)

lemma uint_wrap:
  assumes "uint b dvd 2 ^ 32" "b \<noteq> 0"
  shows "uint (rem_u32 (x + word_of_int d) b) = (uint x + d) mod uint b"
proof -
  have "uint (rem_u32 (x + word_of_int d) b) = ((uint x + d) mod 2 ^ 32) mod uint b"
    using assms(2) by (simp add: rem_u32_def uint_mod uint_add_word_of_int)
  also have "\<dots> = (uint x + d) mod uint b"
    using assms(1) by (rule mod_mod_cancel)
  finally show ?thesis .
qed

lemma uint_cellIndex:
  assumes "gx g \<noteq> 0" "gy g \<noteq> 0" "unat (gx g) * unat (gy g) \<le> 2 ^ 32"
  shows "uint (cellIndex g cell) =
           uint (rem_u32 (snd cell) (gy g)) * uint (gx g) + uint (rem_u32 (fst cell) (gx g))"
proof -
  have "uint (cellIndex g cell) = int (unat (cellIndex g cell))"
    by (rule uint_nat)
  also have "\<dots> = int (unat (rem_u32 (snd cell) (gy g)) * unat (gx g)
                        + unat (rem_u32 (fst cell) (gx g)))"
    using unat_cellIndex [OF assms, of cell] assms(1,2) by (simp add: unat_rem_u32)
  also have "\<dots> = uint (rem_u32 (snd cell) (gy g)) * uint (gx g) + uint (rem_u32 (fst cell) (gx g))"
    by (simp only: uint_nat of_nat_add of_nat_mult)
  finally show ?thesis .
qed

section \<open>One invocation\<close>

lemma cellActive_eq:
  assumes "gx g \<noteq> 0" "gy g \<noteq> 0" "length inp = unat (gx g) * unat (gy g)"
  shows "cellActive g inp x y = Some (cellAt g inp x y)"
  using cellIndex_lt [OF assms(1,2), of "(x, y)"] assms(3)
  by (simp add: cellActive_def cellAt_def load_def)

lemma activeNeighbors_eq:
  assumes "gx g \<noteq> 0" "gy g \<noteq> 0" "length inp = unat (gx g) * unat (gy g)"
  shows "activeNeighbors g inp cell = Some (neighborSum g inp cell)"
  by (simp add: activeNeighbors_def neighborSum_def cellActive_eq [OF assms] split: prod.split)

lemma computeMain_eq:
  assumes "gx g \<noteq> 0" "gy g \<noteq> 0" "length inp = unat (gx g) * unat (gy g)"
    and "length out = length inp"
  shows "computeMain g inp cell out =
           Some (out[unat (cellIndex g (xy cell)) := newValue g inp cell])"
  using cellIndex_lt [OF assms(1,2), of "xy cell"] assms(3,4)
  by (simp add: computeMain_def activeNeighbors_eq [OF assms(1-3)] newValue_def rule_def
      load_def store_def Let_def)

section \<open>A pass\<close>

lemma nth_all_subset: "(\<And>i. i < length xs \<Longrightarrow> xs ! i \<in> S) \<Longrightarrow> set xs \<subseteq> S"
  by (auto simp: in_set_conv_nth)

lemma writes_length:
  "length (foldl (\<lambda>buf c. buf[f c := v c]) out ids) = length out"
  by (induction ids arbitrary: out) simp_all

lemma writes_last:
  assumes "i < length out" "\<exists>c\<in>set ids. f c = i"
  shows "\<exists>c\<in>set ids. f c = i \<and> foldl (\<lambda>buf c. buf[f c := v c]) out ids ! i = v c"
  using assms(2)
proof (induction ids rule: rev_induct)
  case Nil
  then show ?case by simp
next
  case (snoc c ids)
  show ?case
  proof (cases "f c = i")
    case True
    then show ?thesis using assms(1) by (auto simp: writes_length)
  next
    case False
    with snoc obtain c' where "c' \<in> set ids" "f c' = i"
      "foldl (\<lambda>buf c. buf[f c := v c]) out ids ! i = v c'" by auto
    with False show ?thesis by auto
  qed
qed

lemma writes_agree:
  assumes "i < length out" "\<exists>c\<in>set ids. f c = i" "\<forall>c\<in>set ids. f c = i \<longrightarrow> v c = a"
  shows "foldl (\<lambda>buf c. buf[f c := v c]) out ids ! i = a"
  using writes_last [OF assms(1,2), of v] assms(3) by auto

lemma runInvocations_eq:
  assumes "gx g \<noteq> 0" "gy g \<noteq> 0" "length inp = unat (gx g) * unat (gy g)"
    and "length out = length inp"
  shows "runInvocations g inp ids out =
           Some (foldl (\<lambda>buf c. buf[unat (cellIndex g (xy c)) := newValue g inp c]) out ids)"
  using assms(4)
proof (induction ids arbitrary: out)
  case Nil
  then show ?case by simp
next
  case (Cons c ids)
  then show ?case by (simp add: computeMain_eq [OF assms(1-3)])
qed

section \<open>The grid of the host and the dispatch\<close>

lemma grid_size_lt:
  assumes "0 < n" "n * n \<le> 2 ^ 32"
  shows "n < (2::nat) ^ 32"
proof (rule ccontr)
  assume "\<not> n < 2 ^ 32"
  then have "(2::nat) ^ 32 \<le> n" by simp
  then have "(2::nat) ^ 32 * 2 ^ 32 \<le> n * n" by (intro mult_le_mono)
  with assms(2) show False by simp
qed

lemma unat_of_nat_u32: "k < 2 ^ 32 \<Longrightarrow> unat (of_nat k :: u32) = k"
  by (simp add: unat_of_nat)

lemma unat_grid_size:
  assumes "0 < n" "n * n \<le> 2 ^ 32"
  shows "unat (of_nat n :: u32) = n"
  using grid_size_lt [OF assms] by (simp add: unat_of_nat_u32)

lemma uniformArray_gx:
  assumes "0 < n" "n * n \<le> 2 ^ 32"
  shows "unat (gx (uniformArray n)) = n" "gx (uniformArray n) \<noteq> 0"
    "unat (gy (uniformArray n)) = n" "gy (uniformArray n) \<noteq> 0"
  using unat_grid_size [OF assms] assms(1) by (auto simp: uniformArray_def)

lemma unat_cellIndex_uniform:
  assumes "0 < n" "n * n \<le> 2 ^ 32"
  shows "unat (cellIndex (uniformArray n) cell) = (unat (snd cell) mod n) * n + unat (fst cell) mod n"
proof -
  note u = uniformArray_gx [OF assms]
  have "unat (gx (uniformArray n)) * unat (gy (uniformArray n)) \<le> 2 ^ 32"
    using assms(2) by (simp only: u)
  from unat_cellIndex [OF u(2) u(4) this, of cell] show ?thesis by (simp only: u)
qed

lemma workgroupCount_ge: "n \<le> workgroupCount n * WORKGROUP_SIZE"
  unfolding workgroupCount_def WORKGROUP_SIZE_def by (simp split: if_splits) presburger

lemma set_dispatchWorkgroups:
  "set (dispatchWorkgroups cx cy) =
     {(of_nat x, of_nat y, 0) | x y. x < cx * WORKGROUP_SIZE \<and> y < cy * WORKGROUP_SIZE}"
  by (fastforce simp: dispatchWorkgroups_def)

lemma cell_covered:
  assumes "0 < n" "n * n \<le> 2 ^ 32" "i < n * n"
  shows "\<exists>c\<in>set (dispatchWorkgroups (workgroupCount n) (workgroupCount n)).
           unat (cellIndex (uniformArray n) (xy c)) = i"
proof -
  let ?c = "(of_nat (i mod n), of_nat (i div n), 0) :: vec3u"
  have xn: "i mod n < n" using assms(1) by simp
  have yn: "i div n < n" using assms(3) by (simp add: less_mult_imp_div_less)
  have n32: "n < 2 ^ 32" by (rule grid_size_lt [OF assms(1,2)])
  have ux: "unat (of_nat (i mod n) :: u32) = i mod n"
    using xn n32 by (simp add: unat_of_nat_u32)
  have uy: "unat (of_nat (i div n) :: u32) = i div n"
    using yn n32 by (simp add: unat_of_nat_u32)
  have "\<exists>x y. ?c = (of_nat x, of_nat y, 0) \<and> x < workgroupCount n * WORKGROUP_SIZE
           \<and> y < workgroupCount n * WORKGROUP_SIZE"
  proof (intro exI conjI)
    show "?c = (of_nat (i mod n), of_nat (i div n), 0)" by simp
    show "i mod n < workgroupCount n * WORKGROUP_SIZE"
      using xn workgroupCount_ge [of n] by simp
    show "i div n < workgroupCount n * WORKGROUP_SIZE"
      using yn workgroupCount_ge [of n] by simp
  qed
  then have "?c \<in> set (dispatchWorkgroups (workgroupCount n) (workgroupCount n))"
    unfolding set_dispatchWorkgroups by (rule CollectI)
  moreover have "unat (cellIndex (uniformArray n) (xy ?c)) = i"
    using xn yn by (simp add: unat_cellIndex_uniform [OF assms(1,2)] xy_def ux uy)
  ultimately show ?thesis by blast
qed

lemma pass_eq:
  assumes "0 < n" "n * n \<le> 2 ^ 32" "length inp = n * n" "length out = n * n"
  shows "runInvocations (uniformArray n) inp ids out =
           Some (foldl (\<lambda>buf c. buf[unat (cellIndex (uniformArray n) (xy c))
                                       := newValue (uniformArray n) inp c]) out ids)"
  using assms(3,4) uniformArray_gx [OF assms(1,2)]
  by (intro runInvocations_eq) simp_all

lemma rule_01: "v \<in> {0, 1} \<Longrightarrow> rule n v \<in> {0, 1}"
  by (simp add: rule_def)

lemma newValue_01:
  assumes "gx g \<noteq> 0" "gy g \<noteq> 0" "length inp = unat (gx g) * unat (gy g)" "set inp \<subseteq> {0, 1}"
  shows "newValue g inp cell \<in> {0, 1}"
proof -
  have "inp ! unat (cellIndex g (xy cell)) \<in> set inp"
    using cellIndex_lt [OF assms(1,2), of "xy cell"] assms(3) by simp
  with assms(4) have "inp ! unat (cellIndex g (xy cell)) \<in> {0, 1}" by blast
  then show ?thesis unfolding newValue_def by (rule rule_01)
qed

section \<open>Grids whose side is a power of two\<close>

lemma pow2_side:
  assumes "n dvd 2 ^ 16"
  shows "0 < n" "n * n \<le> 2 ^ 32" "int n dvd 2 ^ 32"
proof -
  show pos: "0 < n" using assms by (rule dvd_pos_nat [rotated]) simp
  have "n \<le> 2 ^ 16" using assms by (rule dvd_imp_le) simp
  then have "n * n \<le> 2 ^ 16 * 2 ^ 16" by (intro mult_le_mono)
  then show "n * n \<le> 2 ^ 32" by simp
  have "n dvd 2 ^ 16 * 2 ^ 16" using assms by (rule dvd_mult2)
  then have "n dvd 2 ^ 32" by simp
  then have "int n dvd int (2 ^ 32)" by (simp only: int_dvd_int_iff)
  then show "int n dvd 2 ^ 32" by simp
qed

lemma unat_cellIndex_offsets:
  assumes "n dvd 2 ^ 16"
  shows "unat (cellIndex (uniformArray n) (x + word_of_int dx, y + word_of_int dy)) =
           nat ((uint y + dy) mod int n) * n + nat ((uint x + dx) mod int n)"
proof -
  note p = pow2_side [OF assms]
  note u = uniformArray_gx [OF p(1,2)]
  let ?g = "uniformArray n"
  have ug: "uint (gx ?g) = int n" "uint (gy ?g) = int n"
    using u(1,3) by (simp_all add: uint_nat)
  have dx: "uint (gx ?g) dvd 2 ^ 32" and dy: "uint (gy ?g) dvd 2 ^ 32"
    using p(3) by (simp_all only: ug)
  have wx: "uint (rem_u32 (x + word_of_int dx) (gx ?g)) = (uint x + dx) mod int n"
    using uint_wrap [OF dx u(2), of x dx] by (simp only: ug)
  have wy: "uint (rem_u32 (y + word_of_int dy) (gy ?g)) = (uint y + dy) mod int n"
    using uint_wrap [OF dy u(4), of y dy] by (simp only: ug)
  have "unat (gx ?g) * unat (gy ?g) \<le> 2 ^ 32" using p(2) by (simp only: u)
  from uint_cellIndex [OF u(2) u(4) this, of "(x + word_of_int dx, y + word_of_int dy)"]
  have "uint (cellIndex ?g (x + word_of_int dx, y + word_of_int dy)) =
          (uint y + dy) mod int n * int n + (uint x + dx) mod int n"
    by (simp only: fst_conv snd_conv wx wy ug)
  then have "unat (cellIndex ?g (x + word_of_int dx, y + word_of_int dy)) =
          nat ((uint y + dy) mod int n * int n + (uint x + dx) mod int n)"
    by (simp only: unat_eq_nat_uint)
  also have "\<dots> = nat ((uint y + dy) mod int n) * n + nat ((uint x + dx) mod int n)"
    using p(1) by (simp add: nat_add_distrib nat_mult_distrib)
  finally show ?thesis .
qed

lemma cellAt_torus:
  assumes "n dvd 2 ^ 16"
  shows "cellAt (uniformArray n) inp (x + word_of_int dx) (y + word_of_int dy) =
           torus n inp (uint x + dx) (uint y + dy)"
  by (simp only: cellAt_def torus_def unat_cellIndex_offsets [OF assms])

lemma cellAt_torus_steps:
  assumes "n dvd 2 ^ 16"
  shows "cellAt (uniformArray n) inp (x + 1) (y + 1) = torus n inp (uint x + 1) (uint y + 1)"
    and "cellAt (uniformArray n) inp (x + 1) y = torus n inp (uint x + 1) (uint y)"
    and "cellAt (uniformArray n) inp (x + 1) (y - 1) = torus n inp (uint x + 1) (uint y - 1)"
    and "cellAt (uniformArray n) inp x (y - 1) = torus n inp (uint x) (uint y - 1)"
    and "cellAt (uniformArray n) inp (x - 1) (y - 1) = torus n inp (uint x - 1) (uint y - 1)"
    and "cellAt (uniformArray n) inp (x - 1) y = torus n inp (uint x - 1) (uint y)"
    and "cellAt (uniformArray n) inp (x - 1) (y + 1) = torus n inp (uint x - 1) (uint y + 1)"
    and "cellAt (uniformArray n) inp x (y + 1) = torus n inp (uint x) (uint y + 1)"
  using cellAt_torus [OF assms, of inp x 1 y 1] cellAt_torus [OF assms, of inp x 1 y 0]
    cellAt_torus [OF assms, of inp x 1 y "- 1"] cellAt_torus [OF assms, of inp x 0 y "- 1"]
    cellAt_torus [OF assms, of inp x "- 1" y "- 1"] cellAt_torus [OF assms, of inp x "- 1" y 0]
    cellAt_torus [OF assms, of inp x "- 1" y 1] cellAt_torus [OF assms, of inp x 0 y 1]
  by simp_all

lemma torus_shift:
  "torus n inp (int (unat x mod n) + dx) (int (unat y mod n) + dy) =
     torus n inp (uint x + dx) (uint y + dy)"
  for x y :: u32
proof -
  have m: "(int (unat w mod n) + d) mod int n = (uint w + d) mod int n" for w :: u32 and d
  proof -
    have "int (unat w mod n) = uint w mod int n"
      by (simp only: uint_nat zmod_int)
    then show ?thesis by (simp only: mod_add_left_eq)
  qed
  show ?thesis unfolding torus_def using m [of y dy] m [of x dx] by simp
qed

lemma newValue_lifeCell:
  assumes "n dvd 2 ^ 16"
  shows "newValue (uniformArray n) inp cell =
           lifeCell n inp (unat (cellIndex (uniformArray n) (xy cell)))"
proof -
  obtain x y z where cell: "cell = (x, y, z)" by (cases cell)
  note p = pow2_side [OF assms]
  let ?i = "unat (cellIndex (uniformArray n) (xy cell))"
  have i: "?i = (unat y mod n) * n + unat x mod n"
    by (simp add: unat_cellIndex_uniform [OF p(1,2)] cell xy_def)
  have im: "?i mod n = unat x mod n" and id: "?i div n = unat y mod n"
    using p(1) by (simp_all add: i)
  have "neighborSum (uniformArray n) inp cell =
          torus n inp (uint x + 1) (uint y + 1) + torus n inp (uint x + 1) (uint y) +
          torus n inp (uint x + 1) (uint y - 1) + torus n inp (uint x) (uint y - 1) +
          torus n inp (uint x - 1) (uint y - 1) + torus n inp (uint x - 1) (uint y) +
          torus n inp (uint x - 1) (uint y + 1) + torus n inp (uint x) (uint y + 1)"
    unfolding neighborSum_def cell prod.case
    by (simp only: cellAt_torus_steps(1,3,5,7) [OF assms])
       (simp only: cellAt_torus_steps(2,4,6,8) [OF assms])
  moreover have "torus n inp (int (unat x mod n) + dx) (int (unat y mod n) + dy) =
      torus n inp (uint x + dx) (uint y + dy)" for dx dy
    by (rule torus_shift)
  from this [of 1 1] this [of 1 0] this [of 1 "- 1"] this [of 0 "- 1"] this [of "- 1" "- 1"]
    this [of "- 1" 0] this [of "- 1" 1] this [of 0 1]
  have "lifeCell n inp ?i =
      rule (torus n inp (uint x + 1) (uint y + 1) + torus n inp (uint x + 1) (uint y) +
          torus n inp (uint x + 1) (uint y - 1) + torus n inp (uint x) (uint y - 1) +
          torus n inp (uint x - 1) (uint y - 1) + torus n inp (uint x - 1) (uint y) +
          torus n inp (uint x - 1) (uint y + 1) + torus n inp (uint x) (uint y + 1)) (inp ! ?i)"
    by (simp add: lifeCell_def im id Let_def)
  ultimately show ?thesis by (simp only: newValue_def)
qed

lemma pass_lifeStep:
  assumes "n dvd 2 ^ 16" "length inp = n * n" "length out = n * n"
    and "set (dispatchWorkgroups (workgroupCount n) (workgroupCount n)) \<subseteq> set ids"
  shows "runInvocations (uniformArray n) inp ids out = Some (lifeStep n inp)"
proof -
  note p = pow2_side [OF assms(1)]
  let ?g = "uniformArray n"
  let ?f = "\<lambda>c. unat (cellIndex ?g (xy c))" and ?v = "newValue ?g inp"
  let ?out' = "foldl (\<lambda>buf c. buf[?f c := ?v c]) out ids"
  have run: "runInvocations ?g inp ids out = Some ?out'"
    by (rule pass_eq [OF p(1,2) assms(2,3)])
  have len: "length ?out' = n * n" by (simp add: writes_length assms(3))
  have "?out' = lifeStep n inp"
  proof (rule nth_equalityI)
    show "length ?out' = length (lifeStep n inp)" by (simp add: len lifeStep_def)
  next
    fix i assume "i < length ?out'"
    then have i: "i < n * n" by (simp only: len)
    from cell_covered [OF p(1,2) i] assms(4)
    have ex: "\<exists>c\<in>set ids. ?f c = i" by blast
    have "?out' ! i = lifeCell n inp i"
    proof (rule writes_agree)
      show "i < length out" using i assms(3) by simp
      show "\<exists>c\<in>set ids. ?f c = i" by (rule ex)
      show "\<forall>c\<in>set ids. ?f c = i \<longrightarrow> ?v c = lifeCell n inp i"
        using newValue_lifeCell [OF assms(1), of inp] by auto
    qed
    then show "?out' ! i = lifeStep n inp ! i" using i by (simp add: lifeStep_def)
  qed
  with run show ?thesis by simp
qed

lemma lifeCell_mooreCount: "lifeCell n inp i = rule (mooreCount n inp i) (inp ! i)"
  by (simp add: lifeCell_def mooreCount_def Let_def)

lemma neighborSum_mooreCount:
  assumes "n dvd 2 ^ 16"
  shows "neighborSum (uniformArray n) inp cell =
           mooreCount n inp (unat (cellIndex (uniformArray n) (xy cell)))"
proof -
  obtain x y z where cell: "cell = (x, y, z)" by (cases cell)
  note p = pow2_side [OF assms]
  let ?i = "unat (cellIndex (uniformArray n) (xy cell))"
  have i: "?i = (unat y mod n) * n + unat x mod n"
    by (simp add: unat_cellIndex_uniform [OF p(1,2)] cell xy_def)
  have im: "?i mod n = unat x mod n" and id: "?i div n = unat y mod n"
    using p(1) by (simp_all add: i)
  have "neighborSum (uniformArray n) inp cell =
          torus n inp (uint x + 1) (uint y + 1) + torus n inp (uint x + 1) (uint y) +
          torus n inp (uint x + 1) (uint y - 1) + torus n inp (uint x) (uint y - 1) +
          torus n inp (uint x - 1) (uint y - 1) + torus n inp (uint x - 1) (uint y) +
          torus n inp (uint x - 1) (uint y + 1) + torus n inp (uint x) (uint y + 1)"
    unfolding neighborSum_def cell prod.case
    by (simp only: cellAt_torus_steps(1,3,5,7) [OF assms])
       (simp only: cellAt_torus_steps(2,4,6,8) [OF assms])
  moreover have "torus n inp (int (unat x mod n) + dx) (int (unat y mod n) + dy) =
      torus n inp (uint x + dx) (uint y + dy)" for dx dy
    by (rule torus_shift)
  from this [of 1 1] this [of 1 0] this [of 1 "- 1"] this [of 0 "- 1"] this [of "- 1" "- 1"]
    this [of "- 1" 0] this [of "- 1" 1] this [of 0 1]
  have "mooreCount n inp ?i =
          torus n inp (uint x + 1) (uint y + 1) + torus n inp (uint x + 1) (uint y) +
          torus n inp (uint x + 1) (uint y - 1) + torus n inp (uint x) (uint y - 1) +
          torus n inp (uint x - 1) (uint y - 1) + torus n inp (uint x - 1) (uint y) +
          torus n inp (uint x - 1) (uint y + 1) + torus n inp (uint x) (uint y + 1)"
    by (simp add: mooreCount_def im id Let_def)
  ultimately show ?thesis by simp
qed

lemma activeNeighbors_mooreCount:
  assumes "n dvd 2 ^ 16" "length inp = n * n"
  shows "activeNeighbors (uniformArray n) inp cell =
           Some (mooreCount n inp (unat (cellIndex (uniformArray n) (xy cell))))"
proof -
  note p = pow2_side [OF assms(1)]
  note u = uniformArray_gx [OF p(1,2)]
  have "activeNeighbors (uniformArray n) inp cell = Some (neighborSum (uniformArray n) inp cell)"
    using assms(2) u by (intro activeNeighbors_eq) simp_all
  then show ?thesis by (simp only: neighborSum_mooreCount [OF assms(1)])
qed

section \<open>Passes that do not depend on the order\<close>

lemma index_owner:
  assumes "0 < n" "n * n \<le> 2 ^ 32" "i < n * n"
  shows "unat (cellIndex (uniformArray n) (xy (owner n i))) = i"
proof -
  have xn: "i mod n < n" using assms(1) by simp
  have yn: "i div n < n" using assms(3) by (simp add: less_mult_imp_div_less)
  have n32: "n < 2 ^ 32" by (rule grid_size_lt [OF assms(1,2)])
  have ux: "unat (of_nat (i mod n) :: u32) = i mod n"
    using xn n32 by (simp add: unat_of_nat_u32)
  have uy: "unat (of_nat (i div n) :: u32) = i div n"
    using yn n32 by (simp add: unat_of_nat_u32)
  show ?thesis
    using xn yn by (simp add: unat_cellIndex_uniform [OF assms(1,2)] xy_def owner_def ux uy)
qed

lemma workgroupCount_exact: "WORKGROUP_SIZE dvd n \<Longrightarrow> workgroupCount n * WORKGROUP_SIZE = n"
  by (auto simp: workgroupCount_def)

lemma only_owner:
  assumes "0 < n" "n * n \<le> 2 ^ 32" "WORKGROUP_SIZE dvd n"
    and "c \<in> set (dispatchWorkgroups (workgroupCount n) (workgroupCount n))"
  shows "c = owner n (unat (cellIndex (uniformArray n) (xy c)))"
proof -
  from assms(4) obtain x y where c: "c = (of_nat x, of_nat y, 0)" and xy: "x < n" "y < n"
    unfolding set_dispatchWorkgroups workgroupCount_exact [OF assms(3)] by blast
  have n32: "n < 2 ^ 32" by (rule grid_size_lt [OF assms(1,2)])
  have ux: "unat (of_nat x :: u32) = x" and uy: "unat (of_nat y :: u32) = y"
    using xy n32 by (simp_all add: unat_of_nat_u32)
  have "unat (cellIndex (uniformArray n) (xy c)) = y * n + x"
    using xy by (simp add: unat_cellIndex_uniform [OF assms(1,2)] xy_def c ux uy)
  then show ?thesis using xy by (simp add: owner_def c)
qed

lemma newValue_owner:
  assumes "n dvd 2 ^ 16 \<or> 0 < n \<and> n * n \<le> 2 ^ 32 \<and> WORKGROUP_SIZE dvd n"
    and "c \<in> set (dispatchWorkgroups (workgroupCount n) (workgroupCount n))"
  shows "newValue (uniformArray n) inp c =
           newValue (uniformArray n) inp (owner n (unat (cellIndex (uniformArray n) (xy c))))"
  using assms(1)
proof
  assume p2: "n dvd 2 ^ 16"
  note p = pow2_side [OF p2]
  let ?i = "unat (cellIndex (uniformArray n) (xy c))"
  have "?i < n * n"
    using cellIndex_lt [OF uniformArray_gx(2) [OF p(1,2)] uniformArray_gx(4) [OF p(1,2)], of "xy c"]
    by (simp only: uniformArray_gx [OF p(1,2)])
  then have "unat (cellIndex (uniformArray n) (xy (owner n ?i))) = ?i"
    by (rule index_owner [OF p(1,2)])
  then show ?thesis
    by (simp only: newValue_lifeCell [OF p2])
next
  assume "0 < n \<and> n * n \<le> 2 ^ 32 \<and> WORKGROUP_SIZE dvd n"
  then have "c = owner n (unat (cellIndex (uniformArray n) (xy c)))"
    using assms(2) by (intro only_owner) simp_all
  then show ?thesis by simp
qed

lemma side_valid:
  assumes "n dvd 2 ^ 16 \<or> 0 < n \<and> n * n \<le> 2 ^ 32 \<and> WORKGROUP_SIZE dvd n"
  shows "0 < n" "n * n \<le> 2 ^ 32"
  using assms pow2_side(1,2) [of n] by auto

lemma pass_ownerStep:
  assumes "n dvd 2 ^ 16 \<or> 0 < n \<and> n * n \<le> 2 ^ 32 \<and> WORKGROUP_SIZE dvd n"
    and "length inp = n * n" "length out = n * n"
    and "set ids = set (dispatchWorkgroups (workgroupCount n) (workgroupCount n))"
  shows "runInvocations (uniformArray n) inp ids out = Some (ownerStep n inp)"
proof -
  note p = side_valid [OF assms(1)]
  let ?g = "uniformArray n"
  let ?f = "\<lambda>c. unat (cellIndex ?g (xy c))" and ?v = "newValue ?g inp"
  let ?out' = "foldl (\<lambda>buf c. buf[?f c := ?v c]) out ids"
  have run: "runInvocations ?g inp ids out = Some ?out'"
    by (rule pass_eq [OF p assms(2,3)])
  have len: "length ?out' = n * n" by (simp add: writes_length assms(3))
  have "?out' = ownerStep n inp"
  proof (rule nth_equalityI)
    show "length ?out' = length (ownerStep n inp)" by (simp add: len ownerStep_def)
  next
    fix i assume "i < length ?out'"
    then have i: "i < n * n" by (simp only: len)
    from cell_covered [OF p i] assms(4)
    have ex: "\<exists>c\<in>set ids. ?f c = i" by blast
    have "?out' ! i = ?v (owner n i)"
    proof (rule writes_agree)
      show "i < length out" using i assms(3) by simp
      show "\<exists>c\<in>set ids. ?f c = i" by (rule ex)
      show "\<forall>c\<in>set ids. ?f c = i \<longrightarrow> ?v c = ?v (owner n i)"
        using newValue_owner [OF assms(1), of _ inp] assms(4) by auto
    qed
    then show "?out' ! i = ownerStep n inp ! i" using i by (simp add: ownerStep_def)
  qed
  with run show ?thesis by simp
qed

section \<open>One tick\<close>

lemma bindGroups_nth:
  "bindGroups ! (k mod 2) =
     (if even k then \<lparr>binding1 = A, binding2 = B\<rparr> else \<lparr>binding1 = B, binding2 = A\<rparr>)"
proof (cases "even k")
  case True
  then have "k mod 2 = 0" by presburger
  with True show ?thesis by (simp add: bindGroups_def)
next
  case False
  then have "k mod 2 = 1" by presburger
  with False show ?thesis by (simp add: bindGroups_def)
qed

lemma bindGroups_distinct: "binding1 (bindGroups ! (k mod 2)) \<noteq> binding2 (bindGroups ! (k mod 2))"
  by (simp add: bindGroups_nth)

lemma bindGroups_swap: "binding1 (bindGroups ! (Suc k mod 2)) = binding2 (bindGroups ! (k mod 2))"
  by (simp add: bindGroups_nth)

lemma updateGrid_eq:
  assumes "runInvocations (uniformArray n) (cellStateStorage s (binding1 (bindGroups ! (step s mod 2))))
             (schedule (dispatchWorkgroups (workgroupCount n) (workgroupCount n)))
             (cellStateStorage s (binding2 (bindGroups ! (step s mod 2)))) = Some out'"
  shows "updateGrid n schedule s =
           Some (s\<lparr>cellStateStorage :=
                     (cellStateStorage s)(binding2 (bindGroups ! (step s mod 2)) := out'),
                   step := Suc (step s)\<rparr>,
                 \<lparr>computeGroup = bindGroups ! (step s mod 2),
                  renderGroup = bindGroups ! (Suc (step s) mod 2),
                  drawn = out'\<rparr>)"
  using assms by (simp add: updateGrid_def Let_def bindGroups_swap del: mod_Suc)

lemma buffer_length:
  assumes "length (cellStateStorage s A) = k" "length (cellStateStorage s B) = k"
  shows "length (cellStateStorage s b) = k"
  using assms by (cases b) simp_all

lemma updateGrid_total:
  assumes "0 < n" "n * n \<le> 2 ^ 32"
    and "length (cellStateStorage s A) = n * n" "length (cellStateStorage s B) = n * n"
  shows "\<exists>out'. length out' = n * n \<and>
           runInvocations (uniformArray n) (cellStateStorage s (binding1 (bindGroups ! (step s mod 2))))
             (schedule (dispatchWorkgroups (workgroupCount n) (workgroupCount n)))
             (cellStateStorage s (binding2 (bindGroups ! (step s mod 2)))) = Some out'"
  by (simp add: pass_eq [OF assms(1,2)] buffer_length [OF assms(3,4)] writes_length)

lemma run_lengths:
  "length (cellStateStorage (run n random) A) = n * n"
  "length (cellStateStorage (run n random) B) = n * n"
  by (simp_all add: run_def cellStateArray_def)

lemma upt_16: "[0..<16] = [0, 1, 2, 3, 4, 5, 6, 7, 8, 9, 10, 11, 12, 13, 14, 15]"
  by (simp add: upt_rec)

lemma blinker_fill: "cellStateArray 4 blinkerSamples = blinker"
  by (simp add: cellStateArray_def blinkerSamples_def blinker_def upt_16)

lemma updateGrid_step:
  assumes "0 < n" "n * n \<le> 2 ^ 32"
    and "length (cellStateStorage s A) = n * n" "length (cellStateStorage s B) = n * n"
  shows "\<exists>s' p. updateGrid n schedule s = Some (s', p) \<and> step s' = Suc (step s) \<and>
           length (cellStateStorage s' A) = n * n \<and> length (cellStateStorage s' B) = n * n"
proof -
  from updateGrid_total [OF assms, of schedule] obtain out' where len: "length out' = n * n" and
    run: "runInvocations (uniformArray n) (cellStateStorage s (binding1 (bindGroups ! (step s mod 2))))
             (schedule (dispatchWorkgroups (workgroupCount n) (workgroupCount n)))
             (cellStateStorage s (binding2 (bindGroups ! (step s mod 2)))) = Some out'"
    by blast
  show ?thesis
    using len assms(3,4) by (simp add: updateGrid_eq [where schedule = schedule, OF run])
qed

lemma ticks_step:
  assumes "0 < n" "n * n \<le> 2 ^ 32"
    and "length (cellStateStorage s A) = n * n" "length (cellStateStorage s B) = n * n"
  shows "\<exists>s'. ticks n schedules s = Some s' \<and> step s' = step s + length schedules"
  using assms(3,4)
proof (induction schedules arbitrary: s)
  case Nil
  then show ?case by simp
next
  case (Cons schedule schedules)
  from updateGrid_step [OF assms(1,2) Cons.prems, of schedule] obtain s1 p where
    u: "updateGrid n schedule s = Some (s1, p)" "step s1 = Suc (step s)"
      "length (cellStateStorage s1 A) = n * n" "length (cellStateStorage s1 B) = n * n"
    by blast
  from Cons.IH [OF u(3,4)] obtain s' where
    "ticks n schedules s1 = Some s'" "step s' = step s1 + length schedules" by blast
  with u(1,2) show ?case by simp
qed

section \<open>Ticks on a grid whose side is a power of two\<close>

lemma updateGrid_lifeStep:
  assumes "n dvd 2 ^ 16"
    and "length (cellStateStorage s A) = n * n" "length (cellStateStorage s B) = n * n"
    and "set (dispatchWorkgroups (workgroupCount n) (workgroupCount n))
           \<subseteq> set (schedule (dispatchWorkgroups (workgroupCount n) (workgroupCount n)))"
  shows "updateGrid n schedule s =
           Some (s\<lparr>cellStateStorage :=
                     (cellStateStorage s)(binding2 (bindGroups ! (step s mod 2)) :=
                        lifeStep n (cellStateStorage s (binding1 (bindGroups ! (step s mod 2))))),
                   step := Suc (step s)\<rparr>,
                 \<lparr>computeGroup = bindGroups ! (step s mod 2),
                  renderGroup = bindGroups ! (Suc (step s) mod 2),
                  drawn = lifeStep n (cellStateStorage s (binding1 (bindGroups ! (step s mod 2))))\<rparr>)"
proof (rule updateGrid_eq [where schedule = schedule])
  show "runInvocations (uniformArray n) (cellStateStorage s (binding1 (bindGroups ! (step s mod 2))))
     (schedule (dispatchWorkgroups (workgroupCount n) (workgroupCount n)))
     (cellStateStorage s (binding2 (bindGroups ! (step s mod 2)))) =
    Some (lifeStep n (cellStateStorage s (binding1 (bindGroups ! (step s mod 2)))))"
    using assms(4) by (intro pass_lifeStep assms(1) buffer_length [OF assms(2,3)])
qed

lemma updateGrid_ownerStep:
  assumes "n dvd 2 ^ 16 \<or> 0 < n \<and> n * n \<le> 2 ^ 32 \<and> WORKGROUP_SIZE dvd n"
    and "length (cellStateStorage s A) = n * n" "length (cellStateStorage s B) = n * n"
    and "set (schedule (dispatchWorkgroups (workgroupCount n) (workgroupCount n)))
           = set (dispatchWorkgroups (workgroupCount n) (workgroupCount n))"
  shows "updateGrid n schedule s =
           Some (s\<lparr>cellStateStorage :=
                     (cellStateStorage s)(binding2 (bindGroups ! (step s mod 2)) :=
                        ownerStep n (cellStateStorage s (binding1 (bindGroups ! (step s mod 2))))),
                   step := Suc (step s)\<rparr>,
                 \<lparr>computeGroup = bindGroups ! (step s mod 2),
                  renderGroup = bindGroups ! (Suc (step s) mod 2),
                  drawn = ownerStep n (cellStateStorage s (binding1 (bindGroups ! (step s mod 2))))\<rparr>)"
proof (rule updateGrid_eq [where schedule = schedule])
  show "runInvocations (uniformArray n) (cellStateStorage s (binding1 (bindGroups ! (step s mod 2))))
     (schedule (dispatchWorkgroups (workgroupCount n) (workgroupCount n)))
     (cellStateStorage s (binding2 (bindGroups ! (step s mod 2)))) =
    Some (ownerStep n (cellStateStorage s (binding1 (bindGroups ! (step s mod 2)))))"
    using assms(4) by (intro pass_ownerStep assms(1) buffer_length [OF assms(2,3)])
qed

lemma ticks_order_independent:
  assumes "n dvd 2 ^ 16 \<or> 0 < n \<and> n * n \<le> 2 ^ 32 \<and> WORKGROUP_SIZE dvd n"
    and "length schedules1 = length schedules2"
    and "\<forall>schedule\<in>set schedules1 \<union> set schedules2.
           set (schedule (dispatchWorkgroups (workgroupCount n) (workgroupCount n)))
             = set (dispatchWorkgroups (workgroupCount n) (workgroupCount n))"
    and "length (cellStateStorage s A) = n * n" "length (cellStateStorage s B) = n * n"
  shows "ticks n schedules1 s = ticks n schedules2 s"
  using assms(2-)
proof (induction schedules1 schedules2 arbitrary: s rule: list_induct2)
  case Nil
  then show ?case by simp
next
  case (Cons sch1 rest1 sch2 rest2)
  note p = side_valid [OF assms(1)]
  have c1: "set (sch1 (dispatchWorkgroups (workgroupCount n) (workgroupCount n)))
             = set (dispatchWorkgroups (workgroupCount n) (workgroupCount n))"
    and c2: "set (sch2 (dispatchWorkgroups (workgroupCount n) (workgroupCount n)))
             = set (dispatchWorkgroups (workgroupCount n) (workgroupCount n))"
    using Cons.prems(1) by simp_all
  have same: "updateGrid n sch1 s = updateGrid n sch2 s"
    by (simp only: updateGrid_ownerStep [where schedule = sch1, OF assms(1) Cons.prems(2,3) c1]
        updateGrid_ownerStep [where schedule = sch2, OF assms(1) Cons.prems(2,3) c2])
  from updateGrid_step [where schedule = sch2, OF p Cons.prems(2,3)] obtain s1 q where
    u: "updateGrid n sch2 s = Some (s1, q)"
      "length (cellStateStorage s1 A) = n * n" "length (cellStateStorage s1 B) = n * n"
    by blast
  have "ticks n rest1 s1 = ticks n rest2 s1"
    using Cons.prems(1) by (intro Cons.IH u(2,3)) simp
  then show ?case by (simp add: same u(1))
qed

section \<open>A grid of 3 by 3 cells\<close>

lemma upt_9: "[0..<9] = [0, 1, 2, 3, 4, 5, 6, 7, 8]"
  by (simp add: upt_rec)

lemma bottomRow_fill: "cellStateArray 3 bottomRowSamples = bottomRow"
  by (simp add: cellStateArray_def bottomRowSamples_def bottomRow_def upt_9)

lemma bottomRow_in_order:
  "runInvocations (uniformArray 3) bottomRow
     (dispatchWorkgroups (workgroupCount 3) (workgroupCount 3)) (replicate 9 0) =
     Some [1, 1, 1, 1, 1, 1, 1, 1, 1]"
  by code_simp

lemma bottomRow_reversed:
  "runInvocations (uniformArray 3) bottomRow
     (rev (dispatchWorkgroups (workgroupCount 3) (workgroupCount 3))) (replicate 9 0) =
     Some [0, 0, 0, 1, 1, 1, 1, 1, 1]"
  by code_simp

lemma run_3_bottomRow:
  "step (run 3 bottomRowSamples) = 0"
  "cellStateStorage (run 3 bottomRowSamples) A = bottomRow"
  "cellStateStorage (run 3 bottomRowSamples) B = replicate 9 0"
  by (simp_all add: run_def bottomRow_fill)

lemma torus_centre:
  assumes "i < n * n"
  shows "torus n inp (int (i mod n)) (int (i div n)) = inp ! i"
proof -
  have pos: "0 < n" using assms by (cases n) simp_all
  have "i div n < n" using assms by (simp add: less_mult_imp_div_less)
  then have "nat (int (i div n) mod int n) = i div n" "nat (int (i mod n) mod int n) = i mod n"
    using pos by (simp_all flip: of_nat_mod)
  then show ?thesis by (simp add: torus_def)
qed

lemma lifeCell_cong:
  assumes "i < n * n"
    and "\<forall>dx\<in>{- 1, 0, 1}. \<forall>dy\<in>{- 1, 0, 1}.
           torus n inp (int (i mod n) + dx) (int (i div n) + dy) =
           torus n inp' (int (i mod n) + dx) (int (i div n) + dy)"
  shows "lifeCell n inp i = lifeCell n inp' i"
proof -
  have t: "torus n inp (int (i mod n) + dx) (int (i div n) + dy) =
           torus n inp' (int (i mod n) + dx) (int (i div n) + dy)"
    if "dx \<in> {- 1, 0, 1}" "dy \<in> {- 1, 0, 1}" for dx dy
    using assms(2) that by blast
  have "inp ! i = inp' ! i"
    using t [of 0 0] torus_centre [OF assms(1)] by simp
  then show ?thesis
    using t [of 1 1] t [of 1 0] t [of 1 "- 1"] t [of 0 "- 1"] t [of "- 1" "- 1"]
      t [of "- 1" 0] t [of "- 1" 1] t [of 0 1]
    by (simp add: lifeCell_def Let_def)
qed

section \<open>A grid of 24 by 24 cells\<close>

lemma side_24: "(24::nat) dvd 2 ^ 16 \<or> (0::nat) < 24 \<and> (24::nat) * 24 \<le> 2 ^ 32 \<and> WORKGROUP_SIZE dvd 24"
  by (simp add: WORKGROUP_SIZE_def)

lemma pass_24:
  assumes "length inp = 576"
  shows "runInvocations (uniformArray 24) inp
           (dispatchWorkgroups (workgroupCount 24) (workgroupCount 24)) (replicate 576 0) =
         Some (ownerStep 24 inp)"
  using assms by (intro pass_ownerStep side_24) simp_all

lemma ownerStep_24_first:
  "ownerStep 24 inp ! 0 = newValue (uniformArray 24) inp (0, 0, 0)"
  by (simp add: ownerStep_def owner_def)

lemma left_of_first_24: "cellIndex (uniformArray 24) (0 - 1, 0) = 15"
  by (simp add: cellIndex_def rem_u32_def uniformArray_def)

lemma newValue_24_sparse:
  "newValue (uniformArray 24) sparse24 (0, 0, 0) = 0"
  "newValue (uniformArray 24) (sparse24[15 := 1]) (0, 0, 0) = 1"
  by (simp_all add: newValue_def neighborSum_def cellAt_def cellIndex_def rem_u32_def
      uniformArray_def xy_def rule_def sparse24_def)

lemma mooreCount_24_sparse: "mooreCount 24 (sparse24[15 := 1]) 0 = 2"
  by (simp add: mooreCount_def torus_def sparse24_def)

lemma activeNeighbors_24_sparse:
  "activeNeighbors (uniformArray 24) (sparse24[15 := 1]) (0, 0, 0) = Some 3"
  by (simp add: activeNeighbors_def cellActive_def load_def cellIndex_def rem_u32_def
      uniformArray_def sparse24_def)

lemma sparse24_first: "(sparse24[15 := 1]) ! 0 = 0"
  by (simp add: sparse24_def)

section \<open>Blinkers\<close>

lemma blinkers_turn:
  "\<forall>h\<in>{True, False}. \<forall>r\<in>{0, 1, 2, 3}. \<forall>c\<in>{0, 1, 2, 3}.
     lifeStep 4 (blinkerAt h r c) =
       blinkerAt (\<not> h) (if h then (r + 3) mod 4 else (r + 1) mod 4)
                         (if h then (c + 1) mod 4 else (c + 3) mod 4)"
  by code_simp

lemma lifeStep_blinkerAt:
  assumes "r < 4" "c < 4"
  shows "lifeStep 4 (blinkerAt h r c) =
           blinkerAt (\<not> h) (if h then (r + 3) mod 4 else (r + 1) mod 4)
                             (if h then (c + 1) mod 4 else (c + 3) mod 4)"
proof -
  have "h \<in> {True, False}" by simp
  moreover have "r \<in> {0, 1, 2, 3}" using assms(1) by auto
  moreover have "c \<in> {0, 1, 2, 3}" using assms(2) by auto
  ultimately show ?thesis using blinkers_turn by blast
qed

lemma length_blinkerAt: "length (blinkerAt h r c) = 16"
  by (simp add: blinkerAt_def)

lemma lifeStep_twice_blinkerAt:
  assumes "r < 4" "c < 4"
  shows "lifeStep 4 (lifeStep 4 (blinkerAt h r c)) = blinkerAt h r c"
proof (cases h)
  case True
  have m: "(r + 3) mod 4 < 4" "(c + 1) mod 4 < 4" by simp_all
  have e: "((r + 3) mod 4 + 1) mod 4 = r" "((c + 1) mod 4 + 3) mod 4 = c"
    using assms by presburger+
  have "lifeStep 4 (blinkerAt True r c) = blinkerAt False ((r + 3) mod 4) ((c + 1) mod 4)"
    using lifeStep_blinkerAt [OF assms, of True] by simp
  moreover have "lifeStep 4 (blinkerAt False ((r + 3) mod 4) ((c + 1) mod 4)) = blinkerAt True r c"
    using lifeStep_blinkerAt [OF m, of False] by (simp only: e if_False not_False_eq_True)
  ultimately show ?thesis using True by simp
next
  case False
  have m: "(r + 1) mod 4 < 4" "(c + 3) mod 4 < 4" by simp_all
  have e: "((r + 1) mod 4 + 3) mod 4 = r" "((c + 3) mod 4 + 1) mod 4 = c"
    using assms by presburger+
  have "lifeStep 4 (blinkerAt False r c) = blinkerAt True ((r + 1) mod 4) ((c + 3) mod 4)"
    using lifeStep_blinkerAt [OF assms, of False] by simp
  moreover have "lifeStep 4 (blinkerAt True ((r + 1) mod 4) ((c + 3) mod 4)) = blinkerAt False r c"
    using lifeStep_blinkerAt [OF m, of True] by (simp only: e if_True not_True_eq_False)
  ultimately show ?thesis using False by simp
qed

lemma blinkerAt_row_1: "blinkerAt True 1 0 = blinker"
  by code_simp

lemma blinker_first_pass:
  "runInvocations (uniformArray 4) blinker
     (dispatchWorkgroups (workgroupCount 4) (workgroupCount 4)) (replicate 16 0) = Some blinker_turned"
  by code_simp

section \<open>Bounds of the buffer accesses\<close>

text \<open>
  Claim C6: for a grid of positive width and height, every index \<^const>\<open>cellIndex\<close>
  produces, for every coordinate pair a \<^verbatim>\<open>u32\<close> can hold, is strictly below
  width times height; and a pass over any list of invocation ids, also ids beyond the
  grid edge, makes no access outside the two buffers of that many cells: it returns
  an output buffer, of the same length.
\<close>

theorem cellIndex_in_bounds:
  assumes "gx g \<noteq> 0" "gy g \<noteq> 0"
    and "length cellStateIn = unat (gx g) * unat (gy g)"
    and "length cellStateOut = unat (gx g) * unat (gy g)"
  shows "(\<forall>cell. unat (cellIndex g cell) < unat (gx g) * unat (gy g)) \<and>
         (\<forall>ids. \<exists>out'. runInvocations g cellStateIn ids cellStateOut = Some out' \<and>
                       length out' = length cellStateOut)"
proof (intro conjI allI)
  fix cell show "unat (cellIndex g cell) < unat (gx g) * unat (gy g)"
    by (rule cellIndex_lt [OF assms(1,2)])
next
  fix ids
  show "\<exists>out'. runInvocations g cellStateIn ids cellStateOut = Some out' \<and>
                length out' = length cellStateOut"
    using assms(3,4) by (simp add: runInvocations_eq [OF assms(1-3)] writes_length)
qed

theorem cellIndex_in_bounds_witness:
  "unat (cellIndex \<lparr>gx = 4, gy = 4\<rparr> (0 - 1, 0 - 1)) < 16 \<and>
   (\<exists>out'. runInvocations \<lparr>gx = 4, gy = 4\<rparr> blinker [(4, 7, 0)] (replicate 16 0) = Some out' \<and>
           length out' = 16)"
proof -
  have "(\<forall>cell. unat (cellIndex \<lparr>gx = 4, gy = 4\<rparr> cell) < 16) \<and>
        (\<forall>ids. \<exists>out'. runInvocations \<lparr>gx = 4, gy = 4\<rparr> blinker ids (replicate 16 0) = Some out' \<and>
                      length out' = 16)"
    using cellIndex_in_bounds [of "\<lparr>gx = 4, gy = 4\<rparr>" blinker "replicate 16 0"]
    by (simp add: blinker_def)
  then show ?thesis by blast
qed


section \<open>The value domain\<close>

text \<open>
  Claim C7: if every cell of the input buffer is 0 or 1, then after one compute pass
  that runs (at least) the dispatched invocations, in any order, every cell of the
  output buffer is 0 or 1, whatever the output buffer held before.
\<close>

theorem cell_values_stay_binary:
  assumes "0 < n" "n * n \<le> 2 ^ 32"
    and "length cellStateIn = n * n" "length cellStateOut = n * n"
    and "set cellStateIn \<subseteq> {0, 1}"
    and "set (dispatchWorkgroups (workgroupCount n) (workgroupCount n)) \<subseteq> set ids"
  shows "\<exists>out'. runInvocations (uniformArray n) cellStateIn ids cellStateOut = Some out' \<and>
                length out' = n * n \<and> set out' \<subseteq> {0, 1}"
proof -
  let ?g = "uniformArray n"
  let ?f = "\<lambda>c. unat (cellIndex ?g (xy c))" and ?v = "newValue ?g cellStateIn"
  let ?out' = "foldl (\<lambda>buf c. buf[?f c := ?v c]) cellStateOut ids"
  note u = uniformArray_gx [OF assms(1,2)]
  have run: "runInvocations ?g cellStateIn ids cellStateOut = Some ?out'"
    by (rule pass_eq [OF assms(1-4)])
  have len: "length ?out' = n * n" by (simp add: writes_length assms(4))
  have cells: "?out' ! i \<in> {0, 1}" if "i < n * n" for i
  proof -
    from cell_covered [OF assms(1,2) that] assms(6)
    have "\<exists>c\<in>set ids. ?f c = i" by blast
    with that assms(4) obtain c where "?out' ! i = ?v c"
      using writes_last [of i cellStateOut ids ?f ?v] by auto
    moreover have "?v c \<in> {0, 1}"
      using assms(3,5) u by (intro newValue_01) simp_all
    ultimately show ?thesis by simp
  qed
  have "set ?out' \<subseteq> {0, 1}"
  proof (rule nth_all_subset)
    fix i assume "i < length ?out'"
    then have "i < n * n" by (simp only: len)
    then show "?out' ! i \<in> {0, 1}" by (rule cells)
  qed
  with run len show ?thesis by blast
qed

theorem cell_values_stay_binary_witness:
  "\<exists>out'. runInvocations (uniformArray 4) blinker
            (dispatchWorkgroups (workgroupCount 4) (workgroupCount 4)) (replicate 16 7) = Some out' \<and>
          length out' = 4 * 4 \<and> set out' \<subseteq> {0, 1}"
  using cell_values_stay_binary [of 4 blinker "replicate 16 7"
      "dispatchWorkgroups (workgroupCount 4) (workgroupCount 4)"]
  by (simp add: blinker_def)

section \<open>The rule\<close>

text \<open>
  Claim C1 as it is stated does not hold for every grid.
  On a grid of 24 by 24 cells with the cells \<open>(1, 0)\<close>, \<open>(0, 1)\<close> and \<open>(15, 0)\<close> alive,
  cell \<open>(0, 0)\<close> is dead and two of its eight neighbours on the torus are alive, so that
  by the rule it stays dead. Its invocation counts three active neighbours, because
  it reads column 15 as the column to its left, and the pass leaves 1 in cell 0.
\<close>

theorem rule_count_not_moore_on_24x24:
  "mooreCount 24 (sparse24[15 := 1]) 0 = 2 \<and>
   (sparse24[15 := 1]) ! 0 = 0 \<and>
   activeNeighbors (uniformArray 24) (sparse24[15 := 1]) (0, 0, 0) = Some 3 \<and>
   runInvocations (uniformArray 24) (sparse24[15 := 1])
     (dispatchWorkgroups (workgroupCount 24) (workgroupCount 24)) (replicate 576 0) =
     Some (ownerStep 24 (sparse24[15 := 1])) \<and>
   ownerStep 24 (sparse24[15 := 1]) ! 0 = 1"
proof (intro conjI)
  show "mooreCount 24 (sparse24[15 := 1]) 0 = 2"
    by (rule mooreCount_24_sparse)
  show "(sparse24[15 := 1]) ! 0 = 0"
    by (rule sparse24_first)
  show "activeNeighbors (uniformArray 24) (sparse24[15 := 1]) (0, 0, 0) = Some 3"
    by (rule activeNeighbors_24_sparse)
  show "runInvocations (uniformArray 24) (sparse24[15 := 1])
     (dispatchWorkgroups (workgroupCount 24) (workgroupCount 24)) (replicate 576 0) =
     Some (ownerStep 24 (sparse24[15 := 1]))"
    by (rule pass_24) (simp add: sparse24_def)
  show "ownerStep 24 (sparse24[15 := 1]) ! 0 = 1"
    by (simp only: ownerStep_24_first newValue_24_sparse)
qed

text \<open>
  Claim C1, amended: when the side of the grid is a power of two, at most \<open>2 ^ 16\<close> (as
  \<^verbatim>\<open>GRID_SIZE = 32\<close> is), then for every cell \<open>i\<close> one compute pass over the dispatched
  invocations, in any order and whatever the output buffer held before, writes the
  value determined solely by the count of live cells among the eight neighbours of
  \<open>i\<close> on the torus in the input buffer: the cell's input value unchanged if that count
  is 2, 1 if it is 3, and 0 otherwise. Every invocation that owns cell \<open>i\<close>, also one
  beyond the grid edge, computes that count as its \<^verbatim>\<open>activeNeighbors\<close>.
\<close>

theorem conway_rule_power_of_two:
  assumes "n dvd 2 ^ 16"
    and "length cellStateIn = n * n" "length cellStateOut = n * n"
    and "set (dispatchWorkgroups (workgroupCount n) (workgroupCount n)) \<subseteq> set ids"
    and "i < n * n"
  shows "\<exists>out'.
           runInvocations (uniformArray n) cellStateIn ids cellStateOut = Some out' \<and>
           out' ! i = (if mooreCount n cellStateIn i = 2 then cellStateIn ! i
                       else if mooreCount n cellStateIn i = 3 then 1 else 0) \<and>
           (\<forall>cell. unat (cellIndex (uniformArray n) (xy cell)) = i \<longrightarrow>
              activeNeighbors (uniformArray n) cellStateIn cell =
                Some (mooreCount n cellStateIn i))"
proof -
  have run: "runInvocations (uniformArray n) cellStateIn ids cellStateOut =
               Some (lifeStep n cellStateIn)"
    by (rule pass_lifeStep [OF assms(1-4)])
  have "lifeStep n cellStateIn ! i = lifeCell n cellStateIn i"
    using assms(5) by (simp add: lifeStep_def)
  then have val: "lifeStep n cellStateIn ! i =
      (if mooreCount n cellStateIn i = 2 then cellStateIn ! i
       else if mooreCount n cellStateIn i = 3 then 1 else 0)"
    by (simp add: lifeCell_mooreCount rule_def)
  have "activeNeighbors (uniformArray n) cellStateIn cell = Some (mooreCount n cellStateIn i)"
    if "unat (cellIndex (uniformArray n) (xy cell)) = i" for cell
    using activeNeighbors_mooreCount [OF assms(1,2), of cell] that by simp
  with run val show ?thesis by blast
qed

theorem conway_rule_power_of_two_witness:
  "\<exists>out'.
     runInvocations (uniformArray 4) blinker
       (rev (dispatchWorkgroups (workgroupCount 4) (workgroupCount 4))) (replicate 16 7) = Some out' \<and>
     out' ! 5 = (if mooreCount 4 blinker 5 = 2 then blinker ! 5
                 else if mooreCount 4 blinker 5 = 3 then 1 else 0) \<and>
     activeNeighbors (uniformArray 4) blinker (5, 5, 0) = Some (mooreCount 4 blinker 5)"
proof -
  let ?D = "dispatchWorkgroups (workgroupCount 4) (workgroupCount 4)"
  have h: "(4::nat) dvd 2 ^ 16" "length blinker = 4 * 4" "length (replicate 16 (7::u32)) = 4 * 4"
    "set ?D \<subseteq> set (rev ?D)" "(5::nat) < 4 * 4"
    by (simp_all add: blinker_def)
  have own: "unat (cellIndex (uniformArray 4) (xy (5, 5, 0))) = 5"
    by (simp add: cellIndex_def rem_u32_def uniformArray_def xy_def)
  from conway_rule_power_of_two [OF h] own show ?thesis by blast
qed

section \<open>Toroidal neighbours\<close>

text \<open>
  Claim C2 as it is stated does not hold for every grid.
  On a grid of 3 by 3 cells the neighbour \<open>(x - 1, y)\<close> of cell \<open>(0, 0)\<close> is not the
  cell \<open>(2, 0)\<close> on the opposite edge: \<open>0 - 1\<close> is \<open>2 ^ 32 - 1\<close>, a multiple of 3, and
  the neighbour read is cell \<open>(0, 0)\<close> itself.
\<close>

theorem wrap_fails_on_3x3:
  "cellIndex \<lparr>gx = 3, gy = 3\<rparr> (0 - 1, 0) = cellIndex \<lparr>gx = 3, gy = 3\<rparr> (0, 0) \<and>
   cellIndex \<lparr>gx = 3, gy = 3\<rparr> (0 - 1, 0) \<noteq> cellIndex \<lparr>gx = 3, gy = 3\<rparr> (2, 0)"
  by (simp add: cellIndex_def rem_u32_def)

text \<open>
  Claim C2, amended: when the width and the height of the grid divide \<open>2 ^ 32\<close> (they
  are powers of two) and the grid has at most \<open>2 ^ 32\<close> cells, then for every coordinate
  pair \<open>(x, y)\<close> and all offsets \<open>dx\<close> and \<open>dy\<close> the index of \<open>(x + dx, y + dy)\<close>, computed
  with the wrap-around of \<^verbatim>\<open>u32\<close>, is the index of the cell in column \<open>(x + dx) mod width\<close>
  and row \<open>(y + dy) mod height\<close> of integer arithmetic: the neighbours of a cell on one
  edge are on the opposite edge.
\<close>

theorem toroidal_wrap_power_of_two:
  assumes "uint (gx g) dvd 2 ^ 32" "uint (gy g) dvd 2 ^ 32"
    and "unat (gx g) * unat (gy g) \<le> 2 ^ 32"
  shows "uint (cellIndex g (x + word_of_int dx, y + word_of_int dy)) =
           ((uint y + dy) mod uint (gy g)) * uint (gx g) + (uint x + dx) mod uint (gx g)"
proof -
  have nz: "gx g \<noteq> 0" "gy g \<noteq> 0" using assms(1,2) by auto
  from uint_cellIndex [OF nz assms(3), of "(x + word_of_int dx, y + word_of_int dy)"]
  show ?thesis
    by (simp only: fst_conv snd_conv uint_wrap [OF assms(1) nz(1)] uint_wrap [OF assms(2) nz(2)])
qed

theorem toroidal_wrap_power_of_two_witness:
  "uint (cellIndex \<lparr>gx = 4, gy = 4\<rparr> (0 - 1, 0 - 1)) = 3 * 4 + 3 \<and>
   uint (cellIndex \<lparr>gx = 4, gy = 4\<rparr> (0 - 1, 0)) = 0 * 4 + 3 \<and>
   uint (cellIndex \<lparr>gx = 4, gy = 4\<rparr> (0, 0 - 1)) = 3 * 4 + 0"
  using toroidal_wrap_power_of_two [of "\<lparr>gx = 4, gy = 4\<rparr>" 0 "- 1" 0 "- 1"]
    toroidal_wrap_power_of_two [of "\<lparr>gx = 4, gy = 4\<rparr>" 0 "- 1" 0 0]
    toroidal_wrap_power_of_two [of "\<lparr>gx = 4, gy = 4\<rparr>" 0 0 0 "- 1"]
  by simp

section \<open>The two buffers within a tick\<close>

text \<open>
  Claim C3: in every tick, from a state whose two buffers have one cell per grid cell,
  the buffer the compute pass reads is not the buffer it writes, and the render pass
  of that tick reads the buffer the compute pass has just written, with the contents
  that pass produced; the buffer the compute pass read is left as it was. The compute
  pass uses \<open>bindGroups[step mod 2]\<close>, \<open>step\<close> is incremented, and the render pass uses
  \<open>bindGroups[(step + 1) mod 2]\<close>, where group 0 reads A and writes B and group 1 reads
  B and writes A.
\<close>

theorem render_reads_what_compute_wrote:
  assumes "0 < n" "n * n \<le> 2 ^ 32"
    and "length (cellStateStorage s A) = n * n" "length (cellStateStorage s B) = n * n"
  shows "\<exists>s' p. updateGrid n schedule s = Some (s', p) \<and>
           computeGroup p = bindGroups ! (step s mod 2) \<and>
           step s' = step s + 1 \<and>
           renderGroup p = bindGroups ! ((step s + 1) mod 2) \<and>
           binding1 (computeGroup p) \<noteq> binding2 (computeGroup p) \<and>
           binding1 (renderGroup p) = binding2 (computeGroup p) \<and>
           runInvocations (uniformArray n) (cellStateStorage s (binding1 (computeGroup p)))
             (schedule (dispatchWorkgroups (workgroupCount n) (workgroupCount n)))
             (cellStateStorage s (binding2 (computeGroup p))) = Some (drawn p) \<and>
           drawn p = cellStateStorage s' (binding1 (renderGroup p)) \<and>
           cellStateStorage s' (binding1 (computeGroup p)) =
             cellStateStorage s (binding1 (computeGroup p)) \<and>
           bindGroups = [\<lparr>binding1 = A, binding2 = B\<rparr>, \<lparr>binding1 = B, binding2 = A\<rparr>]"
proof -
  from updateGrid_total [OF assms, of schedule] obtain out' where
    run: "runInvocations (uniformArray n) (cellStateStorage s (binding1 (bindGroups ! (step s mod 2))))
             (schedule (dispatchWorkgroups (workgroupCount n) (workgroupCount n)))
             (cellStateStorage s (binding2 (bindGroups ! (step s mod 2)))) = Some out'"
    by blast
  show ?thesis
    using run bindGroups_distinct [of "step s"] bindGroups_swap [of "step s"]
    by (simp add: updateGrid_eq [where schedule = schedule, OF run] del: mod_Suc)
      (simp add: bindGroups_def)
qed

theorem render_reads_what_compute_wrote_witness:
  "\<exists>s' p. updateGrid 4 rev (run 4 blinkerSamples) = Some (s', p) \<and>
           computeGroup p = bindGroups ! (step (run 4 blinkerSamples) mod 2) \<and>
           step s' = step (run 4 blinkerSamples) + 1 \<and>
           renderGroup p = bindGroups ! ((step (run 4 blinkerSamples) + 1) mod 2) \<and>
           binding1 (computeGroup p) \<noteq> binding2 (computeGroup p) \<and>
           binding1 (renderGroup p) = binding2 (computeGroup p) \<and>
           runInvocations (uniformArray 4)
             (cellStateStorage (run 4 blinkerSamples) (binding1 (computeGroup p)))
             (rev (dispatchWorkgroups (workgroupCount 4) (workgroupCount 4)))
             (cellStateStorage (run 4 blinkerSamples) (binding2 (computeGroup p))) = Some (drawn p) \<and>
           drawn p = cellStateStorage s' (binding1 (renderGroup p)) \<and>
           cellStateStorage s' (binding1 (computeGroup p)) =
             cellStateStorage (run 4 blinkerSamples) (binding1 (computeGroup p)) \<and>
           bindGroups = [\<lparr>binding1 = A, binding2 = B\<rparr>, \<lparr>binding1 = B, binding2 = A\<rparr>]"
  using render_reads_what_compute_wrote [of 4 "run 4 blinkerSamples" rev]
  by (simp only: run_lengths) simp

section \<open>The step counter\<close>




section \<open>The initial fill\<close>

text \<open>
  Claim C9: initially cell \<open>i\<close> of buffer A is 1 exactly when the sample for index \<open>i\<close>
  exceeds 0.6 and 0 otherwise, and buffer B holds zeros only. Every tick, from any
  state whose buffers have one cell per grid cell, returns and changes nothing but the
  buffer bound as output of its compute pass, whose new contents are the result of
  the pass: the host writes no cell after the initial fill.
\<close>

theorem initial_fill_then_compute_only:
  assumes "i < n * n" "n * n \<le> 2 ^ 32"
    and "length (cellStateStorage s A) = n * n" "length (cellStateStorage s B) = n * n"
  shows "cellStateStorage (run n random) A ! i = (if random i > 0.6 then 1 else 0) \<and>
         length (cellStateStorage (run n random) A) = n * n \<and>
         cellStateStorage (run n random) B = replicate (n * n) 0 \<and>
         (\<exists>s' p. updateGrid n schedule s = Some (s', p) \<and>
            cellStateStorage s' (binding1 (computeGroup p)) =
              cellStateStorage s (binding1 (computeGroup p)) \<and>
            runInvocations (uniformArray n) (cellStateStorage s (binding1 (computeGroup p)))
              (schedule (dispatchWorkgroups (workgroupCount n) (workgroupCount n)))
              (cellStateStorage s (binding2 (computeGroup p))) =
              Some (cellStateStorage s' (binding2 (computeGroup p))))"
proof (intro conjI)
  show "cellStateStorage (run n random) A ! i = (if random i > 0.6 then 1 else 0)"
    using assms(1) by (simp add: run_def cellStateArray_def)
  show "length (cellStateStorage (run n random) A) = n * n"
    by (rule run_lengths)
  show "cellStateStorage (run n random) B = replicate (n * n) 0"
    by (simp add: run_def)
  have pos: "0 < n" using assms(1) by (cases n) simp_all
  from updateGrid_total [where schedule = schedule, OF pos assms(2-4)] obtain out' where
    run: "runInvocations (uniformArray n) (cellStateStorage s (binding1 (bindGroups ! (step s mod 2))))
             (schedule (dispatchWorkgroups (workgroupCount n) (workgroupCount n)))
             (cellStateStorage s (binding2 (bindGroups ! (step s mod 2)))) = Some out'"
    by blast
  show "\<exists>s' p. updateGrid n schedule s = Some (s', p) \<and>
            cellStateStorage s' (binding1 (computeGroup p)) =
              cellStateStorage s (binding1 (computeGroup p)) \<and>
            runInvocations (uniformArray n) (cellStateStorage s (binding1 (computeGroup p)))
              (schedule (dispatchWorkgroups (workgroupCount n) (workgroupCount n)))
              (cellStateStorage s (binding2 (computeGroup p))) =
              Some (cellStateStorage s' (binding2 (computeGroup p)))"
    using run bindGroups_distinct [of "step s"]
    by (simp add: updateGrid_eq [where schedule = schedule, OF run])
qed

theorem initial_fill_then_compute_only_witness:
  "cellStateStorage (run 4 blinkerSamples) A ! 5 = (if blinkerSamples 5 > 0.6 then 1 else 0) \<and>
   length (cellStateStorage (run 4 blinkerSamples) A) = 4 * 4 \<and>
   cellStateStorage (run 4 blinkerSamples) B = replicate (4 * 4) 0 \<and>
   (\<exists>s' p. updateGrid 4 rev (run 4 blinkerSamples) = Some (s', p) \<and>
      cellStateStorage s' (binding1 (computeGroup p)) =
        cellStateStorage (run 4 blinkerSamples) (binding1 (computeGroup p)) \<and>
      runInvocations (uniformArray 4) (cellStateStorage (run 4 blinkerSamples) (binding1 (computeGroup p)))
        (rev (dispatchWorkgroups (workgroupCount 4) (workgroupCount 4)))
        (cellStateStorage (run 4 blinkerSamples) (binding2 (computeGroup p))) =
        Some (cellStateStorage s' (binding2 (computeGroup p))))"
proof -
  have side: "(5::nat) < 4 * 4" "(4::nat) * 4 \<le> 2 ^ 32" by simp_all
  show ?thesis
    by (rule initial_fill_then_compute_only
        [where s = "run 4 blinkerSamples" and schedule = rev, OF side run_lengths])
qed

section \<open>Two runs\<close>

text \<open>
  Claim C5 as it is stated does not hold for every grid.
  Two runs of one tick on a grid of 3 by 3 cells, from the same initial cells (row 2
  alive): the 64 invocations of the single workgroup run in the order of the dispatch
  in one run and in the reverse order in the other, and buffer B differs afterwards.
  Cell 0 is written by the invocations \<open>(0, 0)\<close> and \<open>(6, 6)\<close>, among others, with
  different values.
\<close>

theorem runs_differ_on_3x3:
  "contents B (ticks 3 [id] (run 3 bottomRowSamples)) = Some [1, 1, 1, 1, 1, 1, 1, 1, 1] \<and>
   contents B (ticks 3 [rev] (run 3 bottomRowSamples)) = Some [0, 0, 0, 1, 1, 1, 1, 1, 1]"
proof -
  have a: "runInvocations (uniformArray 3)
        (cellStateStorage (run 3 bottomRowSamples) (binding1 (bindGroups ! (step (run 3 bottomRowSamples) mod 2))))
        (id (dispatchWorkgroups (workgroupCount 3) (workgroupCount 3)))
        (cellStateStorage (run 3 bottomRowSamples) (binding2 (bindGroups ! (step (run 3 bottomRowSamples) mod 2))))
       = Some [1, 1, 1, 1, 1, 1, 1, 1, 1]"
    by (simp add: run_3_bottomRow bindGroups_def bottomRow_in_order)
  have b: "runInvocations (uniformArray 3)
        (cellStateStorage (run 3 bottomRowSamples) (binding1 (bindGroups ! (step (run 3 bottomRowSamples) mod 2))))
        (rev (dispatchWorkgroups (workgroupCount 3) (workgroupCount 3)))
        (cellStateStorage (run 3 bottomRowSamples) (binding2 (bindGroups ! (step (run 3 bottomRowSamples) mod 2))))
       = Some [0, 0, 0, 1, 1, 1, 1, 1, 1]"
    by (simp add: run_3_bottomRow bindGroups_def bottomRow_reversed)
  show ?thesis
    by (simp add: contents_def updateGrid_eq [where schedule = id, OF a]
        updateGrid_eq [where schedule = rev, OF b] run_3_bottomRow bindGroups_def)
qed


text \<open>
  Claim C5, amended: when the side of the grid is a power of two, at most \<open>2 ^ 16\<close>
  (as \<^verbatim>\<open>GRID_SIZE = 32\<close> is), or a multiple of the workgroup size, with at most \<open>2 ^ 32\<close>
  cells, two runs of the same number of ticks from the same state, whose buffers have
  one cell per grid cell, end in the same state, whatever order the device runs the
  dispatched invocations in, tick by tick and run by run; and the runs do end.
\<close>

theorem runs_agree:
  assumes "n dvd 2 ^ 16 \<or> 0 < n \<and> n * n \<le> 2 ^ 32 \<and> WORKGROUP_SIZE dvd n"
    and "length schedules1 = length schedules2"
    and "\<forall>schedule\<in>set schedules1 \<union> set schedules2.
           set (schedule (dispatchWorkgroups (workgroupCount n) (workgroupCount n)))
             = set (dispatchWorkgroups (workgroupCount n) (workgroupCount n))"
    and "length (cellStateStorage s A) = n * n" "length (cellStateStorage s B) = n * n"
  shows "ticks n schedules1 s = ticks n schedules2 s \<and>
         (\<exists>s'. ticks n schedules1 s = Some s' \<and> step s' = step s + length schedules1)"
proof -
  note p = side_valid [OF assms(1)]
  from ticks_order_independent [OF assms]
    ticks_step [where schedules = schedules1, OF p assms(4,5)]
  show ?thesis by simp
qed

theorem runs_agree_witness:
  "ticks 4 [id, rev] (run 4 blinkerSamples) = ticks 4 [rev, id] (run 4 blinkerSamples) \<and>
   (\<exists>s'. ticks 4 [id, rev] (run 4 blinkerSamples) = Some s' \<and>
         step s' = step (run 4 blinkerSamples) + 2)"
proof -
  have side: "(4::nat) dvd 2 ^ 16 \<or> (0::nat) < 4 \<and> (4::nat) * 4 \<le> 2 ^ 32 \<and> WORKGROUP_SIZE dvd 4"
    by simp
  have len: "length [id, rev :: vec3u list \<Rightarrow> vec3u list] = length [rev, id :: vec3u list \<Rightarrow> vec3u list]"
    by simp
  have all: "\<forall>schedule\<in>set [id, rev] \<union> set [rev, id].
           set (schedule (dispatchWorkgroups (workgroupCount 4) (workgroupCount 4)))
             = set (dispatchWorkgroups (workgroupCount 4) (workgroupCount 4))"
    by simp
  have two: "length [id, rev :: vec3u list \<Rightarrow> vec3u list] = 2" by simp
  from runs_agree [OF side len all run_lengths [of 4 blinkerSamples]]
  show ?thesis unfolding two .
qed

section \<open>What one output cell depends on\<close>

text \<open>
  Claim C10 as it is stated does not hold for every grid.
  On a grid of 3 by 3 cells the result of a pass depends on the order of the
  invocations: the order of the dispatch and its reverse leave different output
  buffers, from the same input (row 2 alive).
  On a grid of 24 by 24 cells every cell has one invocation, so the order does not
  matter, but the invocation of cell \<open>(0, 0)\<close> reads column 15 as the column to its
  left (\<open>2 ^ 32 - 1\<close> is 15 modulo 24): setting the cell in column 15 of row 0, which
  is not among the nine cells around \<open>(0, 0)\<close> on the torus, changes the value the
  pass leaves in cell 0 from 0 to 1.
\<close>

theorem order_and_neighbourhood_fail:
  "runInvocations (uniformArray 3) bottomRow
     (dispatchWorkgroups (workgroupCount 3) (workgroupCount 3)) (replicate 9 0) \<noteq>
   runInvocations (uniformArray 3) bottomRow
     (rev (dispatchWorkgroups (workgroupCount 3) (workgroupCount 3))) (replicate 9 0) \<and>
   cellIndex (uniformArray 24) (0 - 1, 0) = 15 \<and>
   runInvocations (uniformArray 24) sparse24
     (dispatchWorkgroups (workgroupCount 24) (workgroupCount 24)) (replicate 576 0) =
     Some (ownerStep 24 sparse24) \<and>
   ownerStep 24 sparse24 ! 0 = 0 \<and>
   runInvocations (uniformArray 24) (sparse24[15 := 1])
     (dispatchWorkgroups (workgroupCount 24) (workgroupCount 24)) (replicate 576 0) =
     Some (ownerStep 24 (sparse24[15 := 1])) \<and>
   ownerStep 24 (sparse24[15 := 1]) ! 0 = 1"
proof (intro conjI)
  show "runInvocations (uniformArray 3) bottomRow
     (dispatchWorkgroups (workgroupCount 3) (workgroupCount 3)) (replicate 9 0) \<noteq>
   runInvocations (uniformArray 3) bottomRow
     (rev (dispatchWorkgroups (workgroupCount 3) (workgroupCount 3))) (replicate 9 0)"
    by (simp add: bottomRow_in_order bottomRow_reversed)
  show "cellIndex (uniformArray 24) (0 - 1, 0) = 15"
    by (rule left_of_first_24)
  show "runInvocations (uniformArray 24) sparse24
     (dispatchWorkgroups (workgroupCount 24) (workgroupCount 24)) (replicate 576 0) =
     Some (ownerStep 24 sparse24)"
    by (rule pass_24) (simp add: sparse24_def)
  show "runInvocations (uniformArray 24) (sparse24[15 := 1])
     (dispatchWorkgroups (workgroupCount 24) (workgroupCount 24)) (replicate 576 0) =
     Some (ownerStep 24 (sparse24[15 := 1]))"
    by (rule pass_24) (simp add: sparse24_def)
  show "ownerStep 24 sparse24 ! 0 = 0"
    by (simp only: ownerStep_24_first newValue_24_sparse)
  show "ownerStep 24 (sparse24[15 := 1]) ! 0 = 1"
    by (simp only: ownerStep_24_first newValue_24_sparse)
qed

text \<open>
  Claim C10, amended: when the side \<open>n\<close> of the grid is a power of two, at most
  \<open>2 ^ 16\<close>, the value a pass leaves in output cell \<open>i\<close> is fixed by the input cells in
  the columns \<open>i mod n - 1\<close>, \<open>i mod n\<close>, \<open>i mod n + 1\<close> and the rows \<open>i div n - 1\<close>, \<open>i div n\<close>,
  \<open>i div n + 1\<close> of the torus: two passes whose input buffers agree on these nine cells
  leave the same value in cell \<open>i\<close>, whatever else the input buffers hold, whatever
  the output buffers held before (the kernel never reads them), and whatever order
  the dispatched invocations run in.
\<close>

theorem output_cell_locality:
  assumes "n dvd 2 ^ 16"
    and "length cellStateIn = n * n" "length cellStateIn' = n * n"
    and "length cellStateOut = n * n" "length cellStateOut' = n * n"
    and "set (dispatchWorkgroups (workgroupCount n) (workgroupCount n)) \<subseteq> set ids"
    and "set (dispatchWorkgroups (workgroupCount n) (workgroupCount n)) \<subseteq> set ids'"
    and "i < n * n"
    and "\<forall>dx\<in>{- 1, 0, 1}. \<forall>dy\<in>{- 1, 0, 1}.
           torus n cellStateIn (int (i mod n) + dx) (int (i div n) + dy) =
           torus n cellStateIn' (int (i mod n) + dx) (int (i div n) + dy)"
  shows "\<exists>r r'. runInvocations (uniformArray n) cellStateIn ids cellStateOut = Some r \<and>
                runInvocations (uniformArray n) cellStateIn' ids' cellStateOut' = Some r' \<and>
                r ! i = r' ! i"
proof -
  have "lifeStep n cellStateIn ! i = lifeStep n cellStateIn' ! i"
    using assms(8) lifeCell_cong [OF assms(8,9)] by (simp add: lifeStep_def)
  then show ?thesis
    by (simp add: pass_lifeStep [OF assms(1,2,4,6)] pass_lifeStep [OF assms(1,3,5,7)])
qed

theorem output_cell_locality_witness:
  "\<exists>r r'. runInvocations (uniformArray 4) blinker
             (dispatchWorkgroups (workgroupCount 4) (workgroupCount 4)) (replicate 16 0) = Some r \<and>
          runInvocations (uniformArray 4) (blinker[10 := 1])
             (rev (dispatchWorkgroups (workgroupCount 4) (workgroupCount 4))) (replicate 16 7) = Some r' \<and>
          r ! 0 = r' ! 0"
proof -
  have nb: "\<forall>dx\<in>{- 1, 0, 1}. \<forall>dy\<in>{- 1, 0, 1}.
           torus 4 blinker (int (0 mod 4) + dx) (int (0 div 4) + dy) =
           torus 4 (blinker[10 := 1]) (int (0 mod 4) + dx) (int (0 div 4) + dy)"
    by (simp add: torus_def blinker_def)
  show ?thesis
    using output_cell_locality [of 4 blinker "blinker[10 := 1]" "replicate 16 0" "replicate 16 7"
        "dispatchWorkgroups (workgroupCount 4) (workgroupCount 4)"
        "rev (dispatchWorkgroups (workgroupCount 4) (workgroupCount 4))" 0] nb
    by (simp add: blinker_def)
qed

section \<open>The blinker\<close>

text \<open>
  Claim C8: on the grid of 4 by 4 cells, from an initial fill that is a single
  blinker (three live cells in a row or in a column, at any place, also across the
  edge), one compute pass leaves a blinker of the other orientation and a second pass,
  on that result, leaves the initial blinker again, whatever the output buffers held
  and whatever order the dispatched invocations run in. After two ticks buffer A holds
  the initial blinker and buffer B the turned one.
\<close>

theorem blinker_period_two:
  assumes "r < 4" "c < 4"
    and "cellStateArray 4 random = blinkerAt horizontal r c"
    and "length cellStateOut1 = 16" "length cellStateOut2 = 16"
    and "set (dispatchWorkgroups (workgroupCount 4) (workgroupCount 4))
           \<subseteq> set (schedule1 (dispatchWorkgroups (workgroupCount 4) (workgroupCount 4)))"
    and "set (dispatchWorkgroups (workgroupCount 4) (workgroupCount 4))
           \<subseteq> set (schedule2 (dispatchWorkgroups (workgroupCount 4) (workgroupCount 4)))"
  shows "\<exists>turned r' c' s.
           runInvocations (uniformArray 4) (blinkerAt horizontal r c)
             (schedule1 (dispatchWorkgroups (workgroupCount 4) (workgroupCount 4))) cellStateOut1
             = Some turned \<and>
           turned = blinkerAt (\<not> horizontal) r' c' \<and> r' < 4 \<and> c' < 4 \<and>
           runInvocations (uniformArray 4) turned
             (schedule2 (dispatchWorkgroups (workgroupCount 4) (workgroupCount 4))) cellStateOut2
             = Some (blinkerAt horizontal r c) \<and>
           ticks 4 [schedule1, schedule2] (run 4 random) = Some s \<and> step s = 2 \<and>
           cellStateStorage s B = turned \<and>
           cellStateStorage s A = blinkerAt horizontal r c"
proof -
  let ?b = "blinkerAt horizontal r c"
  let ?r' = "if horizontal then (r + 3) mod 4 else (r + 1) mod 4"
  let ?c' = "if horizontal then (c + 1) mod 4 else (c + 3) mod 4"
  let ?t = "blinkerAt (\<not> horizontal) ?r' ?c'"
  let ?D = "dispatchWorkgroups (workgroupCount 4) (workgroupCount 4)"
  have side: "(4::nat) dvd 2 ^ 16" by simp
  have turn: "lifeStep 4 ?b = ?t" by (rule lifeStep_blinkerAt [OF assms(1,2)])
  have ret: "lifeStep 4 ?t = ?b"
    using lifeStep_twice_blinkerAt [OF assms(1,2), of horizontal] by (simp only: turn)
  have p1: "runInvocations (uniformArray 4) ?b (schedule1 ?D) cellStateOut1 = Some ?t"
    using pass_lifeStep [OF side _ _ assms(6), of ?b cellStateOut1] assms(4)
    by (simp add: length_blinkerAt turn)
  have p2: "runInvocations (uniformArray 4) ?t (schedule2 ?D) cellStateOut2 = Some ?b"
    using pass_lifeStep [OF side _ _ assms(7), of ?t cellStateOut2] assms(5)
    by (simp add: length_blinkerAt ret)
  let ?s0 = "run 4 random"
  let ?s1 = "?s0\<lparr>cellStateStorage := (cellStateStorage ?s0)(B := ?t), step := Suc 0\<rparr>"
  let ?s2 = "?s1\<lparr>cellStateStorage := (cellStateStorage ?s1)(A := ?b), step := Suc (Suc 0)\<rparr>"
  have s0: "step ?s0 = 0" "cellStateStorage ?s0 A = ?b" "cellStateStorage ?s0 B = replicate 16 0"
    by (simp_all add: run_def assms(3))
  have u1: "updateGrid 4 schedule1 ?s0 = Some (?s1, \<lparr>computeGroup = bindGroups ! 0,
              renderGroup = bindGroups ! 1, drawn = ?t\<rparr>)"
    using updateGrid_lifeStep [where schedule = schedule1 and s = ?s0, OF side _ _ assms(6)]
    by (simp add: s0 length_blinkerAt bindGroups_def turn)
  have u2: "updateGrid 4 schedule2 ?s1 = Some (?s2, \<lparr>computeGroup = bindGroups ! 1,
              renderGroup = bindGroups ! 0, drawn = ?b\<rparr>)"
    using updateGrid_lifeStep [where schedule = schedule2 and s = ?s1, OF side _ _ assms(7)]
    by (simp add: s0 length_blinkerAt bindGroups_def ret)
  have t: "ticks 4 [schedule1, schedule2] ?s0 = Some ?s2"
    by (simp add: u1 u2)
  have "?r' < 4" "?c' < 4" by simp_all
  with p1 p2 t show ?thesis
    by (intro exI [of _ ?t] exI [of _ ?r'] exI [of _ ?c'] exI [of _ ?s2]) simp
qed

theorem blinker_period_two_witness:
  "runInvocations (uniformArray 4) blinker
     (dispatchWorkgroups (workgroupCount 4) (workgroupCount 4)) (replicate 16 0) = Some blinker_turned \<and>
   runInvocations (uniformArray 4) blinker_turned
     (rev (dispatchWorkgroups (workgroupCount 4) (workgroupCount 4))) (replicate 16 7) = Some blinker \<and>
   contents B (ticks 4 [id, rev] (run 4 blinkerSamples)) = Some blinker_turned \<and>
   contents A (ticks 4 [id, rev] (run 4 blinkerSamples)) = Some blinker"
proof -
  let ?D = "dispatchWorkgroups (workgroupCount 4) (workgroupCount 4)"
  have h: "(1::nat) < 4" "(0::nat) < 4"
    "length (replicate 16 (0::u32)) = 16" "length (replicate 16 (7::u32)) = 16"
    "set ?D \<subseteq> set (id ?D)" "set ?D \<subseteq> set (rev ?D)"
    by simp_all
  have fill: "cellStateArray 4 blinkerSamples = blinkerAt True 1 0"
    by (simp only: blinker_fill blinkerAt_row_1)
  from blinker_period_two [where ?schedule1.0 = id and ?schedule2.0 = rev, OF h(1,2) fill h(3-)]
  obtain turned s where
    t: "runInvocations (uniformArray 4) (blinkerAt True 1 0) (id ?D) (replicate 16 0) = Some turned"
      "runInvocations (uniformArray 4) turned (rev ?D) (replicate 16 7) = Some (blinkerAt True 1 0)"
      "ticks 4 [id, rev] (run 4 blinkerSamples) = Some s"
      "cellStateStorage s B = turned" "cellStateStorage s A = blinkerAt True 1 0"
    by blast
  note t' = t [unfolded blinkerAt_row_1]
  from t'(1) have "turned = blinker_turned"
    by (simp only: id_apply blinker_first_pass option.inject)
  with t' show ?thesis
    by (simp only: contents_def option.map blinker_first_pass simp_thms)
qed

end
